theory Spec2Isabelle
  imports Main
begin

section \<open>Go strings, runes and the library functions the handlers call\<close>

text \<open>
  A Go \<open>string\<close> is a sequence of bytes; it is modelled as \<open>string\<close> (a list of
  8-bit \<open>char\<close>s), so \<open>length\<close> is Go's \<open>len\<close>.  A rune is a code point,
  modelled as \<open>nat\<close>.  Go's \<open>int\<close> is modelled as \<open>int\<close>, with the 64-bit
  wrap-around written out (\<open>int64\<close>) at every addition and subtraction of the source.
\<close>

type_synonym rune = nat

definition int64 :: "int \<Rightarrow> int" where
  "int64 x = (x + 2 ^ 63) mod 2 ^ 64 - 2 ^ 63"

definition MaxInt :: int where
  "MaxInt = 2 ^ 63 - 1"

definition MinInt :: int where
  "MinInt = - (2 ^ 63)"

subsection \<open>unicode/utf8\<close>

definition RuneError :: rune where
  "RuneError = 0xFFFD"

text \<open>The table \<open>first\<close> of package utf8: the length of the sequence a byte starts
  (1 for ASCII, 0 for a byte that starts nothing).\<close>

definition seqLen :: "nat \<Rightarrow> nat" where
  "seqLen b = (if b < 0x80 then 1 else if b < 0xC2 then 0 else if b < 0xE0 then 2
               else if b < 0xF0 then 3 else if b < 0xF5 then 4 else 0)"

text \<open>The table \<open>acceptRanges\<close>: the bounds of the second byte.\<close>

definition acceptLo :: "nat \<Rightarrow> nat" where
  "acceptLo b = (if b = 0xE0 then 0xA0 else if b = 0xF0 then 0x90 else 0x80)"

definition acceptHi :: "nat \<Rightarrow> nat" where
  "acceptHi b = (if b = 0xED then 0x9F else if b = 0xF4 then 0x8F else 0xBF)"

definition isCont :: "nat \<Rightarrow> bool" where
  "isCont b \<longleftrightarrow> 0x80 \<le> b \<and> b \<le> 0xBF"

text \<open>\<open>utf8.DecodeRuneInString\<close>: the rune at the head of the string and its width in
  bytes; an invalid or truncated sequence is \<open>(RuneError, 1)\<close>.\<close>

fun DecodeRuneInString :: "string \<Rightarrow> rune \<times> nat" where
  "DecodeRuneInString [] = (RuneError, 0)"
| "DecodeRuneInString (c0 # s) =
     (let s0 = of_char c0; sz = seqLen s0 in
      if sz = 1 then (s0, 1)
      else if sz = 0 then (RuneError, 1)
      else if length (c0 # s) < sz then (RuneError, 1)
      else
        let s1 = of_char (s ! 0) in
        if s1 < acceptLo s0 \<or> acceptHi s0 < s1 then (RuneError, 1)
        else if sz \<le> 2 then ((s0 mod 32) * 64 + s1 mod 64, 2)
        else
          let s2 = of_char (s ! 1) in
          if \<not> isCont s2 then (RuneError, 1)
          else if sz \<le> 3 then ((s0 mod 16) * 4096 + (s1 mod 64) * 64 + s2 mod 64, 3)
          else
            let s3 = of_char (s ! 2) in
            if \<not> isCont s3 then (RuneError, 1)
            else ((s0 mod 8) * 262144 + (s1 mod 64) * 4096 + (s2 mod 64) * 64 + s3 mod 64, 4))"

text \<open>The runes that \<open>for _, r := range s\<close> yields, which is also \<open>[]rune(s)\<close>.  The
  head rune of \<open>c # s\<close> has width \<open>w \<ge> 1\<close>, so the loop goes on at \<open>drop (w - 1) s\<close>.\<close>

fun runes :: "string \<Rightarrow> rune list" where
  "runes [] = []"
| "runes (c # s) =
     fst (DecodeRuneInString (c # s)) # runes (drop (snd (DecodeRuneInString (c # s)) - 1) s)"

text \<open>\<open>utf8.AppendRune\<close>, behind \<open>string(r)\<close> and \<open>Builder.WriteRune\<close>: a surrogate or a
  value beyond U+10FFFF is written as U+FFFD.\<close>

definition EncodeRune :: "rune \<Rightarrow> string" where
  "EncodeRune r =
     (if r \<le> 0x7F then [char_of r]
      else if r \<le> 0x7FF then [char_of (0xC0 + r div 64), char_of (0x80 + r mod 64)]
      else if 0x10FFFF < r \<or> (0xD800 \<le> r \<and> r \<le> 0xDFFF) then [CHR 0xEF, CHR 0xBF, CHR 0xBD]
      else if r \<le> 0xFFFF then
        [char_of (0xE0 + r div 4096), char_of (0x80 + (r div 64) mod 64), char_of (0x80 + r mod 64)]
      else
        [char_of (0xF0 + r div 262144), char_of (0x80 + (r div 4096) mod 64),
         char_of (0x80 + (r div 64) mod 64), char_of (0x80 + r mod 64)])"

text \<open>\<open>utf8.ValidRune\<close>: a code point that is not a surrogate half.\<close>

definition ValidRune :: "rune \<Rightarrow> bool" where
  "ValidRune r \<longleftrightarrow> r \<le> 0x10FFFF \<and> \<not> (0xD800 \<le> r \<and> r \<le> 0xDFFF)"

subsection \<open>unicode\<close>

text \<open>The tables of package \<open>unicode\<close> beyond the ranges its functions decide inline,
  and SHA-256, are not part of the repository: they are parameters of the model.\<close>

record stdlib =
  letterTable :: "rune \<Rightarrow> bool"   \<comment> \<open>category L above U+00FF\<close>
  digitTable :: "rune \<Rightarrow> bool"    \<comment> \<open>category Nd above U+00FF\<close>
  lowerTable :: "rune \<Rightarrow> rune"    \<comment> \<open>the lower-case mapping above U+007F\<close>
  sha256hex :: "string \<Rightarrow> string"  \<comment> \<open>hex of \<open>sha256.Sum256\<close>\<close>

text \<open>\<open>unicode.IsLetter\<close>: the Latin-1 range is decided by the \<open>properties\<close> array.\<close>

definition IsLetter :: "stdlib \<Rightarrow> rune \<Rightarrow> bool" where
  "IsLetter L r =
     (if r \<le> 0xFF then
        (0x41 \<le> r \<and> r \<le> 0x5A) \<or> (0x61 \<le> r \<and> r \<le> 0x7A) \<or> r = 0xAA \<or> r = 0xB5 \<or> r = 0xBA
        \<or> (0xC0 \<le> r \<and> r \<le> 0xD6) \<or> (0xD8 \<le> r \<and> r \<le> 0xF6) \<or> 0xF8 \<le> r
      else letterTable L r)"

definition IsDigit :: "stdlib \<Rightarrow> rune \<Rightarrow> bool" where
  "IsDigit L r = (if r \<le> 0xFF then 0x30 \<le> r \<and> r \<le> 0x39 else digitTable L r)"

definition unicode_ToLower :: "stdlib \<Rightarrow> rune \<Rightarrow> rune" where
  "unicode_ToLower L r =
     (if r \<le> 0x7F then (if 0x41 \<le> r \<and> r \<le> 0x5A then r + 32 else r) else lowerTable L r)"

text \<open>\<open>unicode.IsSpace\<close>, with the \<open>White_Space\<close> table written out.\<close>

definition IsSpace :: "rune \<Rightarrow> bool" where
  "IsSpace r =
     (if r \<le> 0xFF then r = 0x09 \<or> r = 0x0A \<or> r = 0x0B \<or> r = 0x0C \<or> r = 0x0D \<or> r = 0x20
                        \<or> r = 0x85 \<or> r = 0xA0
      else r = 0x1680 \<or> (0x2000 \<le> r \<and> r \<le> 0x200A) \<or> r = 0x2028 \<or> r = 0x2029
           \<or> r = 0x202F \<or> r = 0x205F \<or> r = 0x3000)"

subsection \<open>strings\<close>

text \<open>\<open>strings.ToLower\<close>: every rune is mapped by \<open>unicode.ToLower\<close> and written back;
  an invalid byte comes back as U+FFFD.\<close>

definition ToLower :: "stdlib \<Rightarrow> string \<Rightarrow> string" where
  "ToLower L s = concat (map (\<lambda>r. EncodeRune (unicode_ToLower L r)) (runes s))"

text \<open>\<open>strings.Fields\<close>: the maximal runs of bytes between white-space runes.  The first
  argument is the field being read (empty when none has started).\<close>

fun fieldsLoop :: "string \<Rightarrow> string \<Rightarrow> string list" where
  "fieldsLoop cur [] = (if cur = [] then [] else [cur])"
| "fieldsLoop cur (c # s) =
     (let w = snd (DecodeRuneInString (c # s)) in
      if IsSpace (fst (DecodeRuneInString (c # s)))
      then (if cur = [] then [] else [cur]) @ fieldsLoop [] (drop (w - 1) s)
      else fieldsLoop (cur @ c # take (w - 1) s) (drop (w - 1) s))"

definition Fields :: "string \<Rightarrow> string list" where
  "Fields s = fieldsLoop [] s"

text \<open>\<open>strings.Index\<close>: the index of the first occurrence of \<open>sub\<close>, or \<open>-1\<close>.\<close>

fun Index :: "string \<Rightarrow> string \<Rightarrow> int" where
  "Index [] sub = (if sub = [] then 0 else -1)"
| "Index (c # s) sub =
     (if take (length sub) (c # s) = sub then 0
      else let i = Index s sub in if i = -1 then -1 else i + 1)"

definition Contains :: "string \<Rightarrow> string \<Rightarrow> bool" where
  "Contains s sub \<longleftrightarrow> Index s sub \<ge> 0"

text \<open>\<open>utf8.RuneStart\<close> and \<open>utf8.DecodeLastRuneInString\<close>: the last rune is looked for
  at most \<open>UTFMax = 4\<close> bytes back, and must end exactly at the end of the string.\<close>

definition RuneStart :: "nat \<Rightarrow> bool" where
  "RuneStart b \<longleftrightarrow> \<not> isCont b"

function backScan :: "string \<Rightarrow> int \<Rightarrow> int \<Rightarrow> int" where
  "backScan s start lim =
     (if start \<ge> lim \<and> start \<ge> 0 then
        (if RuneStart (of_char (s ! nat start)) then start else backScan s (start - 1) lim)
      else start)"
  by pat_completeness auto
termination
  by (relation "measure (\<lambda>(s, start, lim). nat (start + 1))") auto

declare backScan.simps [simp del]

definition DecodeLastRuneInString :: "string \<Rightarrow> rune \<times> nat" where
  "DecodeLastRuneInString s =
     (let end = int (length s) in
      if end = 0 then (RuneError, 0)
      else
        let r = of_char (s ! nat (end - 1)) in
        if r < 0x80 then (r, 1)
        else
          let lim = (if end - 4 < 0 then 0 else end - 4);
              start0 = backScan s (end - 2) lim;
              start = (if start0 < 0 then 0 else start0);
              d = DecodeRuneInString (drop (nat start) s)
          in if start + int (snd d) \<noteq> end then (RuneError, 1) else d)"

text \<open>\<open>strings.TrimSpace\<close>: white-space runes are dropped from the left, read forwards,
  and then from the right, read by \<open>DecodeLastRuneInString\<close>.\<close>

fun trimLeft :: "string \<Rightarrow> string" where
  "trimLeft [] = []"
| "trimLeft (c # s) =
     (if IsSpace (fst (DecodeRuneInString (c # s)))
      then trimLeft (drop (snd (DecodeRuneInString (c # s)) - 1) s)
      else c # s)"

lemma backScan_le: "backScan s start lim \<le> start"
proof (induction s start lim rule: backScan.induct)
  case (1 s start lim)
  then show ?case by (subst backScan.simps) (auto split: if_splits)
qed

lemma DecodeLastRuneInString_width: "s \<noteq> [] \<Longrightarrow> 1 \<le> snd (DecodeLastRuneInString s)"
proof -
  assume ne: "s \<noteq> []"
  define e where "e = int (length s)"
  have e: "1 \<le> e" using ne by (cases s) (simp_all add: e_def)
  define lim where "lim = (if e - 4 < 0 then 0 else e - 4)"
  define start where "start = (if backScan s (e - 2) lim < 0 then 0 else backScan s (e - 2) lim)"
  have "backScan s (e - 2) lim \<le> e - 2" by (rule backScan_le)
  then have st: "start < e" using e by (simp add: start_def)
  have "start + int (snd (DecodeRuneInString (drop (nat start) s))) = e
        \<Longrightarrow> 1 \<le> snd (DecodeRuneInString (drop (nat start) s))"
    using st by linarith
  then show ?thesis
    unfolding DecodeLastRuneInString_def Let_def e_def [symmetric] lim_def [symmetric]
      start_def [symmetric]
    using e by auto
qed

function trimRight :: "string \<Rightarrow> string" where
  "trimRight s =
     (if s = [] then []
      else if IsSpace (fst (DecodeLastRuneInString s))
      then trimRight (take (length s - snd (DecodeLastRuneInString s)) s)
      else s)"
  by pat_completeness auto
termination
proof (relation "measure length")
  show "wf (measure length)" by simp
next
  fix s :: string
  assume "s \<noteq> []"
  then have "1 \<le> snd (DecodeLastRuneInString s)" and "0 < length s"
    using DecodeLastRuneInString_width [of s] by simp_all
  then show "(take (length s - snd (DecodeLastRuneInString s)) s, s) \<in> measure length"
    by simp
qed

declare trimRight.simps [simp del]

definition TrimSpace :: "string \<Rightarrow> string" where
  "TrimSpace s = trimRight (trimLeft s)"

subsection \<open>strconv\<close>

text \<open>\<open>strconv.Atoi\<close>: an optional sign and decimal digits, within the range of \<open>int\<close>;
  \<open>None\<close> stands for \<open>err != nil\<close>.\<close>

definition digitVal :: "char \<Rightarrow> int option" where
  "digitVal ch = (if (0x30::int) \<le> of_char ch \<and> of_char ch \<le> (0x39::int)
                  then Some (of_char ch - 0x30) else None)"

fun digitsLoop :: "string \<Rightarrow> int \<Rightarrow> int option" where
  "digitsLoop [] n = Some n"
| "digitsLoop (ch # s) n =
     (case digitVal ch of None \<Rightarrow> None | Some d \<Rightarrow> digitsLoop s (n * 10 + d))"

definition Atoi :: "string \<Rightarrow> int option" where
  "Atoi s0 =
     (case s0 of
        [] \<Rightarrow> None
      | c # t \<Rightarrow>
          (let s = (if c = CHR ''-'' \<or> c = CHR ''+'' then t else s0) in
           if s = [] then None
           else
             (case digitsLoop s 0 of
                None \<Rightarrow> None
              | Some n \<Rightarrow>
                  (let v = (if c = CHR ''-'' then - n else n) in
                   if MinInt \<le> v \<and> v \<le> MaxInt then Some v else None))))"

text \<open>\<open>strconv.ParseBool\<close>\<close>

definition ParseBool :: "string \<Rightarrow> bool option" where
  "ParseBool s =
     (if s = ''1'' \<or> s = ''t'' \<or> s = ''T'' \<or> s = ''TRUE'' \<or> s = ''true'' \<or> s = ''True''
      then Some True
      else if s = ''0'' \<or> s = ''f'' \<or> s = ''F'' \<or> s = ''FALSE'' \<or> s = ''false'' \<or> s = ''False''
      then Some False
      else None)"

subsection \<open>Values of type \<open>any\<close>, run-time panics, maps\<close>

datatype any = VBool bool | VInt int | VString string

datatype panic = Panic

type_synonym filterMap = "string \<rightharpoonup> any"

text \<open>\<open>xs[i]\<close> and \<open>s[lo:]\<close>, \<open>xs[lo:hi]\<close>: out of range is a run-time panic.\<close>

definition index :: "'a list \<Rightarrow> int \<Rightarrow> panic + 'a" where
  "index xs i = (if 0 \<le> i \<and> i < int (length xs) then Inr (xs ! nat i) else Inl Panic)"

definition sliceFrom :: "'a list \<Rightarrow> int \<Rightarrow> panic + 'a list" where
  "sliceFrom xs lo = (if 0 \<le> lo \<and> lo \<le> int (length xs) then Inr (drop (nat lo) xs) else Inl Panic)"

definition sliceRange :: "'a list \<Rightarrow> int \<Rightarrow> int \<Rightarrow> panic + 'a list" where
  "sliceRange xs lo hi =
     (if 0 \<le> lo \<and> lo \<le> hi \<and> hi \<le> int (length xs)
      then Inr (take (nat (hi - lo)) (drop (nat lo) xs)) else Inl Panic)"

text \<open>\<open>for k, v := range m\<close> visits the entries of a map in an order the run time
  chooses: \<open>range_order m kvs\<close> says that \<open>kvs\<close> is one such order.\<close>

definition range_order :: "('k \<rightharpoonup> 'v) \<Rightarrow> ('k \<times> 'v) list \<Rightarrow> bool" where
  "range_order m kvs \<longleftrightarrow> distinct (map fst kvs) \<and> map_of kvs = m"

section \<open>internals/handlers/handlers.go: the property computer\<close>

record Properties =
  Length :: int
  IsPalindrome :: bool
  UniqueCharacters :: int
  WordCount :: int
  SHA256Hash :: string
  CharacterFrequencyMap :: "(string \<times> int) list"

text \<open>The Go map \<open>map[string]int\<close> is kept as an association list with distinct keys;
  \<open>freqIncr k m\<close> is \<open>m[k]++\<close> (a missing key reads as 0).\<close>

fun freqIncr :: "string \<Rightarrow> (string \<times> int) list \<Rightarrow> (string \<times> int) list" where
  "freqIncr k [] = [(k, 1)]"
| "freqIncr k ((k', n) # m) = (if k = k' then (k', n + 1) # m else (k', n) # freqIncr k m)"

text \<open>\<open>for _, r := range value { freqMap[string(r)]++ }\<close>\<close>

fun freqLoop :: "rune list \<Rightarrow> (string \<times> int) list \<Rightarrow> (string \<times> int) list" where
  "freqLoop [] m = m"
| "freqLoop (r # rs) m = freqLoop rs (freqIncr (EncodeRune r) m)"

text \<open>The first loop of \<open>isPalindrome\<close>: the letters and digits of the lower-cased
  string, written to a \<open>strings.Builder\<close>.\<close>

fun cleanLoop :: "stdlib \<Rightarrow> rune list \<Rightarrow> string \<Rightarrow> string" where
  "cleanLoop L [] cleaned = cleaned"
| "cleanLoop L (r # rs) cleaned =
     (if IsLetter L r \<or> IsDigit L r then cleanLoop L rs (cleaned @ EncodeRune r)
      else cleanLoop L rs cleaned)"

text \<open>The second loop: \<open>for i := 0; i < len(str)/2; i++\<close>, on the bytes \<open>str[i]\<close> and
  \<open>str[len(str)-1-i]\<close>; both indices are in range when \<open>i < len(str)/2\<close>.\<close>

function compareLoop :: "string \<Rightarrow> nat \<Rightarrow> bool" where
  "compareLoop str i =
     (if i < length str div 2 then
        (if str ! i \<noteq> str ! (length str - 1 - i) then False else compareLoop str (i + 1))
      else True)"
  by pat_completeness auto
termination
  by (relation "measure (\<lambda>(str, i). length str div 2 - i)") auto

declare compareLoop.simps [simp del]

definition isPalindrome :: "stdlib \<Rightarrow> string \<Rightarrow> bool" where
  "isPalindrome L s = compareLoop (cleanLoop L (runes (ToLower L s)) []) 0"

definition countWords :: "string \<Rightarrow> int" where
  "countWords s = int (length (Fields s))"

definition ComputeProperties :: "stdlib \<Rightarrow> string \<Rightarrow> Properties" where
  "ComputeProperties L val =
     (let hashStr = sha256hex L val;
          freqMap = freqLoop (runes val) [];
          isPalin = isPalindrome L val;
          wordCount = countWords val
      in \<lparr> Length = int (length val),
           IsPalindrome = isPalin,
           UniqueCharacters = int (length freqMap),
           WordCount = wordCount,
           SHA256Hash = hashStr,
           CharacterFrequencyMap = freqMap \<rparr>)"

text \<open>One value of the parameters, for running the functions on text that stays within
  Latin-1 (code points up to U+00FF): the lower-case mapping of U+00C0 to U+00DE is Go's,
  and \<open>sha256hex\<close> is left empty.  Above U+00FF these tables are not Go's (they know no
  letter, no digit and no lower-case mapping there), so \<open>latin1\<close> is only ever applied
  to strings of code points up to U+00FF, where \<open>IsLetter\<close>, \<open>IsDigit\<close> and
  \<open>unicode_ToLower\<close> agree with package \<open>unicode\<close>.\<close>

definition latin1 :: stdlib where
  "latin1 = \<lparr> letterTable = (\<lambda>r. False),
              digitTable = (\<lambda>r. False),
              lowerTable = (\<lambda>r. if 0xC0 \<le> r \<and> r \<le> 0xDE \<and> r \<noteq> 0xD7 then r + 32 else r),
              sha256hex = (\<lambda>s. []) \<rparr>"

section \<open>internals/handlers/handlers.go: the filters of \<open>ListStrings\<close>\<close>

text \<open>The part of \<open>ListStrings\<close> that builds \<open>filters\<close> from the query parameters;
  \<open>get k\<close> is \<open>query.Get(k)\<close>, empty when the parameter is absent.  \<open>Inl msg\<close> is the
  400 response written before the early \<open>return\<close>.\<close>

definition listIsPalindrome :: "(string \<Rightarrow> string) \<Rightarrow> filterMap \<Rightarrow> string + filterMap" where
  "listIsPalindrome get filters =
     (let val = get ''is_palindrome'' in
      if val \<noteq> [] then
        (case ParseBool val of
           None \<Rightarrow> Inl ''Invalid is_palindrome value''
         | Some isPalin \<Rightarrow> Inr (filters(''is_palindrome'' \<mapsto> VBool isPalin)))
      else Inr filters)"

definition listInt :: "string \<Rightarrow> (string \<Rightarrow> string) \<Rightarrow> filterMap \<Rightarrow> string + filterMap" where
  "listInt name get filters =
     (let val = get name in
      if val \<noteq> [] then
        (case Atoi val of
           None \<Rightarrow> Inl (''Invalid '' @ name @ '' value'')
         | Some n \<Rightarrow> if n < 0 then Inl (''Invalid '' @ name @ '' value'')
                     else Inr (filters(name \<mapsto> VInt n)))
      else Inr filters)"

definition listContainsCharacter :: "(string \<Rightarrow> string) \<Rightarrow> filterMap \<Rightarrow> string + filterMap" where
  "listContainsCharacter get filters =
     (let val = get ''contains_character'' in
      if val \<noteq> [] then
        (if length (runes val) \<noteq> 1 then Inl ''contains_character must be exactly one character''
         else Inr (filters(''contains_character'' \<mapsto> VString val)))
      else Inr filters)"

definition ListStrings_filters :: "(string \<Rightarrow> string) \<Rightarrow> string + filterMap" where
  "ListStrings_filters get =
     (case listIsPalindrome get Map.empty of Inl e \<Rightarrow> Inl e | Inr f1 \<Rightarrow>
      case listInt ''min_length'' get f1 of Inl e \<Rightarrow> Inl e | Inr f2 \<Rightarrow>
      case listInt ''max_length'' get f2 of Inl e \<Rightarrow> Inl e | Inr f3 \<Rightarrow>
      case listInt ''word_count'' get f3 of Inl e \<Rightarrow> Inl e | Inr f4 \<Rightarrow>
      listContainsCharacter get f4)"

section \<open>internals/handlers/handlers.go: \<open>parseNaturalLanguageQuery\<close>\<close>

text \<open>\<open>if strings.Contains(lower, "palindrom")\<close>\<close>

definition palindromeCheck :: "string \<Rightarrow> filterMap \<Rightarrow> filterMap" where
  "palindromeCheck lower filters =
     (if Contains lower ''palindrom'' then filters(''is_palindrome'' \<mapsto> VBool True) else filters)"

text \<open>The first \<open>for i, word := range words\<close>; a \<open>break\<close> returns the map at once.\<close>

function wordCountLoop :: "string list \<Rightarrow> nat \<Rightarrow> filterMap \<Rightarrow> panic + filterMap" where
  "wordCountLoop words i filters =
     (if i < length words then
        (if (words ! i = ''word'' \<or> words ! i = ''words'') \<and> i > 0 then
           (case index words (int i - 1) of
              Inl p \<Rightarrow> Inl p
            | Inr prev \<Rightarrow>
                (case Atoi prev of
                   Some count \<Rightarrow> Inr (filters(''word_count'' \<mapsto> VInt count))
                 | None \<Rightarrow>
                     if prev = ''single'' then Inr (filters(''word_count'' \<mapsto> VInt 1))
                     else wordCountLoop words (i + 1) filters))
         else wordCountLoop words (i + 1) filters)
      else Inr filters)"
  by pat_completeness auto
termination
  by (relation "measure (\<lambda>(words, i, filters). length words - i)") auto

declare wordCountLoop.simps [simp del]

text \<open>The second \<open>for i, word := range words\<close>: every match writes its entry.\<close>

function lengthLoop :: "string list \<Rightarrow> nat \<Rightarrow> filterMap \<Rightarrow> panic + filterMap" where
  "lengthLoop words i filters =
     (if i < length words then
        (if words ! i = ''than'' \<and> i > 0 \<and> int i < int (length words) - 1 then
           (case index words (int i + 1) of
              Inl p \<Rightarrow> Inl p
            | Inr nxt \<Rightarrow>
                (case Atoi nxt of
                   Some len \<Rightarrow>
                     (case index words (int i - 1) of
                        Inl p \<Rightarrow> Inl p
                      | Inr prev \<Rightarrow>
                          if prev = ''longer''
                          then lengthLoop words (i + 1) (filters(''min_length'' \<mapsto> VInt (int64 (len + 1))))
                          else if prev = ''shorter''
                          then lengthLoop words (i + 1) (filters(''max_length'' \<mapsto> VInt (int64 (len - 1))))
                          else lengthLoop words (i + 1) filters)
                 | None \<Rightarrow> lengthLoop words (i + 1) filters))
         else lengthLoop words (i + 1) filters)
      else Inr filters)"
  by pat_completeness auto
termination
  by (relation "measure (\<lambda>(words, i, filters). length words - i)") auto

declare lengthLoop.simps [simp del]

text \<open>The search for \<open>"containing"\<close>, else \<open>"contains"\<close>, and its two heuristics.  Indices
  and lengths of strings are below \<open>2^63\<close>, so their sums are written without wrap-around.\<close>

definition containsCheck :: "string \<Rightarrow> string list \<Rightarrow> filterMap \<Rightarrow> panic + filterMap" where
  "containsCheck lower words filters =
     (let containsIndex0 = Index lower ''containing'';
          containsIndex = (if containsIndex0 = -1 then Index lower ''contains'' else containsIndex0);
          searchWord = (if containsIndex0 = -1 then ''contains'' else ''containing'')
      in
      if containsIndex \<noteq> -1 then
        (case sliceFrom lower (containsIndex + int (length searchWord)) of
           Inl p \<Rightarrow> Inl p
         | Inr remainingStr \<Rightarrow>
             (let letterIndex = Index remainingStr ''letter '' in
              if letterIndex \<noteq> -1 then
                (case sliceFrom remainingStr (letterIndex + int (length ''letter '')) of
                   Inl p \<Rightarrow> Inl p
                 | Inr rest \<Rightarrow>
                     (let charAfter = TrimSpace rest in
                      if length charAfter > 0 then
                        (case index (runes charAfter) 0 of
                           Inl p \<Rightarrow> Inl p
                         | Inr r \<Rightarrow> Inr (filters(''contains_character'' \<mapsto> VString (EncodeRune r))))
                      else Inr filters))
              else
                (case index words (int (length words) - 1) of
                   Inl p \<Rightarrow> Inl p
                 | Inr lastWord \<Rightarrow>
                     if length (runes lastWord) = 1
                     then Inr (filters(''contains_character'' \<mapsto> VString lastWord))
                     else Inr filters)))
      else Inr filters)"

text \<open>The result is Go's pair \<open>(filters, err)\<close>; \<open>None\<close> is \<open>nil\<close>.\<close>

definition parseNaturalLanguageQuery ::
    "stdlib \<Rightarrow> string \<Rightarrow> panic + (filterMap \<times> string option)" where
  "parseNaturalLanguageQuery L query =
     (let lower = ToLower L query;
          words = Fields lower;
          filters = palindromeCheck lower Map.empty
      in
      case wordCountLoop words 0 filters of Inl p \<Rightarrow> Inl p | Inr filters1 \<Rightarrow>
      case lengthLoop words 0 filters1 of Inl p \<Rightarrow> Inl p | Inr filters2 \<Rightarrow>
      case containsCheck lower words filters2 of Inl p \<Rightarrow> Inl p | Inr filters3 \<Rightarrow>
      Inr (filters3, None))"

section \<open>main.go: \<open>InMemoryStore\<close>\<close>

record StringResource =
  ID :: string
  Value :: string
  Properties :: Properties
  CreatedAt :: int

text \<open>\<open>matchesFilters\<close>: the second argument is the order in which \<open>range filters\<close> visits
  the entries.  A type assertion \<open>val.(T)\<close> on a value of another type panics.\<close>

fun matchesFilters :: "StringResource \<Rightarrow> (string \<times> any) list \<Rightarrow> panic + bool" where
  "matchesFilters res [] = Inr True"
| "matchesFilters res ((key, val) # rest) =
     (if key = ''is_palindrome'' then
        (case val of
           VBool b \<Rightarrow> if IsPalindrome (Properties res) \<noteq> b then Inr False
                      else matchesFilters res rest
         | _ \<Rightarrow> Inl Panic)
      else if key = ''min_length'' then
        (case val of
           VInt n \<Rightarrow> if Length (Properties res) < n then Inr False else matchesFilters res rest
         | _ \<Rightarrow> Inl Panic)
      else if key = ''max_length'' then
        (case val of
           VInt n \<Rightarrow> if Length (Properties res) > n then Inr False else matchesFilters res rest
         | _ \<Rightarrow> Inl Panic)
      else if key = ''word_count'' then
        (case val of
           VInt n \<Rightarrow> if WordCount (Properties res) \<noteq> n then Inr False
                     else matchesFilters res rest
         | _ \<Rightarrow> Inl Panic)
      else if key = ''contains_character'' then
        (case val of
           VString char \<Rightarrow>
             if map_of (CharacterFrequencyMap (Properties res)) char = None then Inr False
             else matchesFilters res rest
         | _ \<Rightarrow> Inl Panic)
      else matchesFilters res rest)"

text \<open>The loop of \<open>List\<close> over the store: \<open>visited\<close> is the order in which \<open>range s.store\<close>
  yields the resources, and \<open>fo res\<close> the order in which the call of \<open>matchesFilters\<close>
  for \<open>res\<close> visits the filters.\<close>

fun filterLoop ::
    "(StringResource \<Rightarrow> (string \<times> any) list) \<Rightarrow> StringResource list \<Rightarrow> StringResource list
     \<Rightarrow> panic + StringResource list" where
  "filterLoop fo [] allResults = Inr allResults"
| "filterLoop fo (res # rs) allResults =
     (case matchesFilters res (fo res) of
        Inl p \<Rightarrow> Inl p
      | Inr m \<Rightarrow> filterLoop fo rs (if m then allResults @ [res] else allResults))"

text \<open>\<open>List\<close> returns \<open>(results, totalCount, nil)\<close>; the error is always \<open>nil\<close> and is left
  out.  \<open>end := offset + limit\<close> is an addition of two \<open>int\<close>s.\<close>

definition InMemoryStore_List ::
    "StringResource list \<Rightarrow> (StringResource \<Rightarrow> (string \<times> any) list) \<Rightarrow> int \<Rightarrow> int
     \<Rightarrow> panic + (StringResource list \<times> int)" where
  "InMemoryStore_List visited fo limit offset =
     (case filterLoop fo visited [] of
        Inl p \<Rightarrow> Inl p
      | Inr allResults \<Rightarrow>
          (let totalCount = int (length allResults);
               start = offset;
               end0 = int64 (offset + limit)
           in
           if start > totalCount then Inr ([], totalCount)
           else
             (let end = (if end0 > totalCount then totalCount else end0) in
              case sliceRange allResults start end of
                Inl p \<Rightarrow> Inl p
              | Inr paginatedResults \<Rightarrow> Inr (paginatedResults, totalCount))))"

section \<open>Filter sets: the types the assertions expect, and what a filter set asks for\<close>

text \<open>\<open>type_ok key val\<close>: the dynamic type of \<open>val\<close> is the one that \<open>matchesFilters\<close>
  asserts for \<open>key\<close>; a key outside its \<open>switch\<close> carries no assertion.  \<open>satisfies p f\<close>
  is the conjunction of the five filters as the documentation words them, read off the
  map \<open>f\<close> and not off an order of its entries; \<open>holds\<close> is the condition of one entry.\<close>

definition type_ok :: "string \<Rightarrow> any \<Rightarrow> bool" where
  "type_ok key val =
     (if key = ''is_palindrome'' then (case val of VBool b \<Rightarrow> True | _ \<Rightarrow> False)
      else if key = ''min_length'' \<or> key = ''max_length'' \<or> key = ''word_count''
      then (case val of VInt n \<Rightarrow> True | _ \<Rightarrow> False)
      else if key = ''contains_character'' then (case val of VString c \<Rightarrow> True | _ \<Rightarrow> False)
      else True)"

definition well_typed :: "filterMap \<Rightarrow> bool" where
  "well_typed f \<longleftrightarrow> (\<forall>k v. f k = Some v \<longrightarrow> type_ok k v)"

definition satisfies :: "Properties \<Rightarrow> filterMap \<Rightarrow> bool" where
  "satisfies p f \<longleftrightarrow>
     (case f ''is_palindrome'' of Some (VBool b) \<Rightarrow> IsPalindrome p = b | _ \<Rightarrow> True)
     \<and> (case f ''min_length'' of Some (VInt n) \<Rightarrow> Length p \<ge> n | _ \<Rightarrow> True)
     \<and> (case f ''max_length'' of Some (VInt n) \<Rightarrow> Length p \<le> n | _ \<Rightarrow> True)
     \<and> (case f ''word_count'' of Some (VInt n) \<Rightarrow> WordCount p = n | _ \<Rightarrow> True)
     \<and> (case f ''contains_character'' of
          Some (VString c) \<Rightarrow> c \<in> fst ` set (CharacterFrequencyMap p) | _ \<Rightarrow> True)"

definition holds :: "Properties \<Rightarrow> string \<Rightarrow> any \<Rightarrow> bool" where
  "holds p key val =
     (if key = ''is_palindrome'' then (case val of VBool b \<Rightarrow> IsPalindrome p = b | _ \<Rightarrow> True)
      else if key = ''min_length'' then (case val of VInt n \<Rightarrow> Length p \<ge> n | _ \<Rightarrow> True)
      else if key = ''max_length'' then (case val of VInt n \<Rightarrow> Length p \<le> n | _ \<Rightarrow> True)
      else if key = ''word_count'' then (case val of VInt n \<Rightarrow> WordCount p = n | _ \<Rightarrow> True)
      else if key = ''contains_character''
      then (case val of VString c \<Rightarrow> c \<in> fst ` set (CharacterFrequencyMap p) | _ \<Rightarrow> True)
      else True)"

section \<open>\<open>parseNaturalLanguageQuery\<close> as a function of the tokens\<close>

text \<open>The two loops and the search for the keyword, written without loops and without
  the panics of indexing: the theorems below prove that the parser computes them.
  \<open>wcMatch words i\<close>: the first loop writes \<open>word_count\<close> at token \<open>i\<close>, the value
  being \<open>wcValue\<close> of the token before it.\<close>

definition wcMatch :: "string list \<Rightarrow> nat \<Rightarrow> bool" where
  "wcMatch words i \<longleftrightarrow>
     0 < i \<and> i < length words \<and> (words ! i = ''word'' \<or> words ! i = ''words'')
     \<and> (Atoi (words ! (i - 1)) \<noteq> None \<or> words ! (i - 1) = ''single'')"

definition wcValue :: "string \<Rightarrow> int" where
  "wcValue prev = (case Atoi prev of Some count \<Rightarrow> count | None \<Rightarrow> 1)"

definition wcMatches :: "string list \<Rightarrow> nat list" where
  "wcMatches words = filter (wcMatch words) [0..<length words]"

text \<open>\<open>lenMatch words i\<close>: the second loop writes \<open>min_length\<close> or \<open>max_length\<close> at
  token \<open>i\<close>, and \<open>lenStep\<close> is that write.\<close>

definition lenMatch :: "string list \<Rightarrow> nat \<Rightarrow> bool" where
  "lenMatch words i \<longleftrightarrow>
     0 < i \<and> i + 1 < length words \<and> words ! i = ''than'' \<and> Atoi (words ! (i + 1)) \<noteq> None
     \<and> (words ! (i - 1) = ''longer'' \<or> words ! (i - 1) = ''shorter'')"

definition lenStep :: "string list \<Rightarrow> nat \<Rightarrow> filterMap \<Rightarrow> filterMap" where
  "lenStep words i filters =
     (case Atoi (words ! (i + 1)) of
        None \<Rightarrow> filters
      | Some len \<Rightarrow>
          if words ! (i - 1) = ''longer'' then filters(''min_length'' \<mapsto> VInt (int64 (len + 1)))
          else if words ! (i - 1) = ''shorter''
          then filters(''max_length'' \<mapsto> VInt (int64 (len - 1)))
          else filters)"

definition lenMatches :: "string list \<Rightarrow> nat list" where
  "lenMatches words = filter (lenMatch words) [0..<length words]"

text \<open>What \<open>containsCheck\<close> does once the keyword \<open>sw\<close> has been found in \<open>lower\<close>.\<close>

definition afterKeyword :: "string \<Rightarrow> string list \<Rightarrow> string \<Rightarrow> filterMap \<Rightarrow> filterMap" where
  "afterKeyword lower words sw filters =
     (let remainingStr = drop (nat (Index lower sw) + length sw) lower in
      if Index remainingStr ''letter '' \<noteq> -1 then
        (let charAfter = TrimSpace (drop (nat (Index remainingStr ''letter '') + 7) remainingStr) in
         if charAfter \<noteq> []
         then filters(''contains_character'' \<mapsto> VString (EncodeRune (hd (runes charAfter))))
         else filters)
      else if length (runes (last words)) = 1
      then filters(''contains_character'' \<mapsto> VString (last words))
      else filters)"

text \<open>The filters that \<open>parseNaturalLanguageQuery\<close> returns.\<close>

definition parsedFilters :: "stdlib \<Rightarrow> string \<Rightarrow> filterMap" where
  "parsedFilters L query =
     (let lower = ToLower L query;
          words = Fields lower;
          filters = palindromeCheck lower Map.empty;
          filters1 = (case wcMatches words of
                        [] \<Rightarrow> filters
                      | k # ks \<Rightarrow> filters(''word_count'' \<mapsto> VInt (wcValue (words ! (k - 1)))));
          filters2 = fold (lenStep words) (lenMatches words) filters1
      in
      if Index lower ''containing'' \<noteq> -1 then afterKeyword lower words ''containing'' filters2
      else if Index lower ''contains'' \<noteq> -1 then afterKeyword lower words ''contains'' filters2
      else filters2)"

section \<open>The property computer: length, palindrome, frequency map\<close>

subsection \<open>Bytes and runes\<close>

lemma length_runes_le: "length (runes s) \<le> length s"
proof (induction s rule: runes.induct)
  case 1
  then show ?case by simp
next
  case (2 c s)
  have "length (drop (snd (DecodeRuneInString (c # s)) - 1) s) \<le> length s" by simp
  with 2 show ?case by simp
qed

lemma runes_ascii: "\<forall>c\<in>set s. of_char c < (0x80::nat) \<Longrightarrow> runes s = map of_char s"
  by (induction s) (auto simp: seqLen_def Let_def)

lemma runes_eq_Nil [simp]: "runes s = [] \<longleftrightarrow> s = []"
  by (cases s) simp_all

text \<open>
  What the code computes for \<open>Length\<close>: \<open>len(value)\<close>, the number of bytes of the
  string.  It is never below the number of code points that \<open>range value\<close> yields, and
  equals it when every byte of the string is ASCII.
\<close>

theorem Length_counts_bytes:
  "Length (ComputeProperties L s) = int (length s)
   \<and> int (length (runes s)) \<le> Length (ComputeProperties L s)
   \<and> ((\<forall>c\<in>set s. of_char c < (0x80::nat))
        \<longrightarrow> Length (ComputeProperties L s) = int (length (runes s)))"
  by (simp add: ComputeProperties_def Let_def length_runes_le runes_ascii)

theorem Length_counts_bytes_ascii:
  "Length (ComputeProperties latin1 ''Panama'') = int (length (runes ''Panama''))
   \<and> length (runes ''Panama'') = 6"
proof -
  have h: "\<forall>c\<in>set ''Panama''. of_char c < (0x80::nat)" by simp
  have "Length (ComputeProperties latin1 ''Panama'') = int (length (runes ''Panama''))"
    using Length_counts_bytes [of latin1 "''Panama''"] h by blast
  moreover have "length (runes ''Panama'') = 6" by code_simp
  ultimately show ?thesis by blast
qed

text \<open>
  Claim C1: \<open>Length\<close> is the number of Unicode code points of the string, not the number
  of bytes of its UTF-8 encoding.  The code does not do that: at the string of the two
  bytes C3 A9, which is the one code point U+00E9, \<open>Length\<close> is 2, while the loop over
  \<open>range value\<close> of the same function sees one rune.
\<close>

theorem C1_length_counterexample:
  "Length (ComputeProperties latin1 [CHR 0xC3, CHR 0xA9]) = 2
   \<and> runes [CHR 0xC3, CHR 0xA9] = [0xE9]
   \<and> Length (ComputeProperties latin1 [CHR 0xC3, CHR 0xA9])
       \<noteq> int (length (runes [CHR 0xC3, CHR 0xA9]))"
  by (simp add: ComputeProperties_def Let_def seqLen_def acceptLo_def acceptHi_def)

subsection \<open>The palindrome test compares bytes\<close>

lemma compareLoop_iff:
  "compareLoop str i \<longleftrightarrow>
     (\<forall>j. i \<le> j \<and> j < length str div 2 \<longrightarrow> str ! j = str ! (length str - 1 - j))"
proof (induction str i rule: compareLoop.induct)
  case (1 str i)
  show ?case
  proof (cases "i < length str div 2")
    case False
    then have "compareLoop str i" by (subst compareLoop.simps) simp
    moreover have "\<forall>j. i \<le> j \<and> j < length str div 2 \<longrightarrow> str ! j = str ! (length str - 1 - j)"
      using False by auto
    ultimately show ?thesis by blast
  next
    case True
    show ?thesis
    proof (cases "str ! i = str ! (length str - 1 - i)")
      case False
      have "\<not> compareLoop str i" using True False by (subst compareLoop.simps) simp
      moreover have "\<not> (\<forall>j. i \<le> j \<and> j < length str div 2 \<longrightarrow>
                           str ! j = str ! (length str - 1 - j))"
        using True False by blast
      ultimately show ?thesis by blast
    next
      case eq: True
      have step: "compareLoop str i = compareLoop str (i + 1)"
        using True eq by (subst compareLoop.simps) simp
      have ih: "compareLoop str (i + 1) \<longleftrightarrow>
          (\<forall>j. i + 1 \<le> j \<and> j < length str div 2 \<longrightarrow> str ! j = str ! (length str - 1 - j))"
        using "1.IH" True eq by blast
      have "(\<forall>j. i + 1 \<le> j \<and> j < length str div 2 \<longrightarrow> str ! j = str ! (length str - 1 - j))
            \<longleftrightarrow> (\<forall>j. i \<le> j \<and> j < length str div 2 \<longrightarrow> str ! j = str ! (length str - 1 - j))"
      proof (intro iffI allI impI)
        fix j
        assume h: "\<forall>j. i + 1 \<le> j \<and> j < length str div 2 \<longrightarrow> str ! j = str ! (length str - 1 - j)"
          and j: "i \<le> j \<and> j < length str div 2"
        show "str ! j = str ! (length str - 1 - j)"
        proof (cases "j = i")
          case True
          then show ?thesis using eq by simp
        next
          case False
          then have "i + 1 \<le> j" using j by simp
          then show ?thesis using h j by blast
        qed
      next
        fix j
        assume h: "\<forall>j. i \<le> j \<and> j < length str div 2 \<longrightarrow> str ! j = str ! (length str - 1 - j)"
          and j: "i + 1 \<le> j \<and> j < length str div 2"
        then have "i \<le> j \<and> j < length str div 2" by simp
        then show "str ! j = str ! (length str - 1 - j)" using h by blast
      qed
      then show ?thesis using step ih by simp
    qed
  qed
qed

lemma half_palindrome:
  "(\<forall>j. j < length str div 2 \<longrightarrow> str ! j = str ! (length str - 1 - j)) \<longleftrightarrow> str = rev str"
proof
  assume h: "\<forall>j. j < length str div 2 \<longrightarrow> str ! j = str ! (length str - 1 - j)"
  show "str = rev str"
  proof (rule nth_equalityI)
    show "length str = length (rev str)" by simp
  next
    fix j assume j: "j < length str"
    have r: "rev str ! j = str ! (length str - 1 - j)" using j by (simp add: rev_nth)
    consider "j < length str div 2" | "length str - 1 - j < length str div 2"
      | "j = length str - 1 - j"
      using j by linarith
    then show "str ! j = rev str ! j"
    proof cases
      case 1
      then show ?thesis using h r by simp
    next
      case 2
      then have "str ! (length str - 1 - j) = str ! (length str - 1 - (length str - 1 - j))"
        using h by blast
      moreover have "length str - 1 - (length str - 1 - j) = j" using j by simp
      ultimately show ?thesis using r by simp
    next
      case 3
      then show ?thesis using r by simp
    qed
  qed
next
  assume e: "str = rev str"
  show "\<forall>j. j < length str div 2 \<longrightarrow> str ! j = str ! (length str - 1 - j)"
  proof (intro allI impI)
    fix j assume "j < length str div 2"
    then have "j < length str" by simp
    then have "rev str ! j = str ! (length str - 1 - j)" by (simp add: rev_nth)
    with e show "str ! j = str ! (length str - 1 - j)" by simp
  qed
qed

lemma cleanLoop_eq:
  "cleanLoop L rs acc =
     acc @ concat (map EncodeRune (filter (\<lambda>r. IsLetter L r \<or> IsDigit L r) rs))"
  by (induction rs arbitrary: acc) simp_all

text \<open>What the code decides: the bytes of the cleaned string read the same both ways.\<close>

lemma isPalindrome_bytes:
  "isPalindrome L s \<longleftrightarrow>
     (let cleaned = concat (map EncodeRune
                      (filter (\<lambda>r. IsLetter L r \<or> IsDigit L r) (runes (ToLower L s))))
      in cleaned = rev cleaned)"
  using compareLoop_iff [of "cleanLoop L (runes (ToLower L s)) []" 0]
    half_palindrome [of "cleanLoop L (runes (ToLower L s)) []"]
  by (simp add: isPalindrome_def cleanLoop_eq Let_def)

text \<open>
  Claim C2 at the string "\<open>\<eacute>\<close>" (bytes C3 A9).  Its cleaned sequence is the one
  code point U+00E9, a palindrome by the claim, yet \<open>isPalindrome\<close> returns false: the
  loop compares the byte C3 with the byte A9.
\<close>

theorem C2_single_letter_not_palindrome:
  "isPalindrome latin1 [CHR 0xC3, CHR 0xA9] = False
   \<and> filter (\<lambda>r. IsLetter latin1 r \<or> IsDigit latin1 r)
        (runes (ToLower latin1 [CHR 0xC3, CHR 0xA9])) = [0xE9]"
  by code_simp

subsection \<open>UTF-8: what is decoded is valid, and what is encoded reads back\<close>

lemma low6: "(128 + c) mod 64 = (c::nat) mod 64"
  using mod_mult_self2 [of c 64 2] by (simp add: add.commute)

lemma low5: "(192 + a) mod 32 = (a::nat) mod 32"
  using mod_mult_self2 [of a 32 6] by (simp add: add.commute)

lemma low4: "(224 + a) mod 16 = (a::nat) mod 16"
  using mod_mult_self2 [of a 16 14] by (simp add: add.commute)

lemma low3: "(240 + a) mod 8 = (a::nat) mod 8"
  using mod_mult_self2 [of a 8 30] by (simp add: add.commute)

lemma byte_char: "n < 256 \<Longrightarrow> of_char (char_of (n::nat)) = n"
  by simp

lemma decode_one: "seqLen (of_char c0) = 1 \<Longrightarrow> DecodeRuneInString (c0 # t) = (of_char c0, 1)"
  by (simp add: Let_def)

lemma decode_two:
  "seqLen (of_char c0) = 2 \<Longrightarrow> acceptLo (of_char c0) \<le> of_char c1
   \<Longrightarrow> of_char c1 \<le> acceptHi (of_char c0)
   \<Longrightarrow> DecodeRuneInString (c0 # c1 # t) = ((of_char c0 mod 32) * 64 + of_char c1 mod 64, 2)"
  by (simp add: Let_def)

lemma decode_three:
  "seqLen (of_char c0) = 3 \<Longrightarrow> acceptLo (of_char c0) \<le> of_char c1
   \<Longrightarrow> of_char c1 \<le> acceptHi (of_char c0) \<Longrightarrow> isCont (of_char c2)
   \<Longrightarrow> DecodeRuneInString (c0 # c1 # c2 # t)
       = ((of_char c0 mod 16) * 4096 + (of_char c1 mod 64) * 64 + of_char c2 mod 64, 3)"
  by (simp add: Let_def)

lemma decode_four:
  "seqLen (of_char c0) = 4 \<Longrightarrow> acceptLo (of_char c0) \<le> of_char c1
   \<Longrightarrow> of_char c1 \<le> acceptHi (of_char c0) \<Longrightarrow> isCont (of_char c2) \<Longrightarrow> isCont (of_char c3)
   \<Longrightarrow> DecodeRuneInString (c0 # c1 # c2 # c3 # t)
       = ((of_char c0 mod 8) * 262144 + (of_char c1 mod 64) * 4096 + (of_char c2 mod 64) * 64
          + of_char c3 mod 64, 4)"
  by (simp add: Let_def)

lemma decode_encode1:
  assumes "r \<le> 0x7F"
  shows "DecodeRuneInString (EncodeRune r @ t) = (r, 1)"
proof -
  have c: "of_char (char_of r) = r" using assms by (simp add: byte_char)
  have e: "EncodeRune r = [char_of r]" using assms by (simp add: EncodeRune_def)
  have "seqLen (of_char (char_of r)) = 1" unfolding c using assms by (simp add: seqLen_def)
  then show ?thesis unfolding e using decode_one [of "char_of r" t] c by simp
qed

lemma decode_encode2:
  assumes "0x7F < r" "r \<le> 0x7FF"
  shows "DecodeRuneInString (EncodeRune r @ t) = (r, 2)"
proof -
  define c where "c = r mod 64"
  define a where "a = r div 64"
  have ra: "r = a * 64 + c" by (simp add: a_def c_def)
  have c: "c < 64" by (simp add: c_def)
  have a: "2 \<le> a" "a < 32" using assms ra c by linarith+
  define b0 where "b0 = 0xC0 + a"
  define b1 where "b1 = 0x80 + c"
  have b0: "0xC2 \<le> b0" "b0 < 0xE0" unfolding b0_def using a by linarith+
  have b1: "0x80 \<le> b1" "b1 \<le> 0xBF" unfolding b1_def using c by linarith+
  have c0: "of_char (char_of b0) = b0" using b0 by (intro byte_char) linarith
  have c1: "of_char (char_of b1) = b1" using b1 by (intro byte_char) linarith
  have m: "b0 mod 32 = a" "b1 mod 64 = c" unfolding b0_def b1_def using a c by (simp_all add: low5 low6)
  have e: "EncodeRune r = [char_of b0, char_of b1]"
    using assms by (simp add: EncodeRune_def b0_def b1_def a_def c_def)
  have sl: "seqLen (of_char (char_of b0)) = 2" unfolding c0 using b0 by (simp add: seqLen_def)
  have lo: "acceptLo (of_char (char_of b0)) \<le> of_char (char_of b1)"
    unfolding c0 c1 using b0 b1 by (simp add: acceptLo_def)
  have hi: "of_char (char_of b1) \<le> acceptHi (of_char (char_of b0))"
    unfolding c0 c1 using b0 b1 by (simp add: acceptHi_def)
  show ?thesis
    unfolding e using decode_two [OF sl lo hi, of t] by (simp only: c0 c1 m ra append.simps)
qed

lemma decode_encode3:
  assumes "0x7FF < r" "r \<le> 0xFFFF" "\<not> (0xD800 \<le> r \<and> r \<le> 0xDFFF)"
  shows "DecodeRuneInString (EncodeRune r @ t) = (r, 3)"
proof -
  define c where "c = r mod 64"
  define x where "x = r div 64"
  define b where "b = x mod 64"
  define a where "a = x div 64"
  have rx: "r = x * 64 + c" by (simp add: x_def c_def)
  have xa: "x = a * 64 + b" by (simp add: a_def b_def)
  have ra: "r = a * 4096 + b * 64 + c" using rx xa by simp
  have c: "c < 64" by (simp add: c_def)
  have b: "b < 64" by (simp add: b_def)
  have a: "a < 16" using assms ra by linarith
  have d: "r div 4096 = a" unfolding a_def x_def by (simp add: div_mult2_eq)
  define b0 where "b0 = 0xE0 + a"
  define b1 where "b1 = 0x80 + b"
  define b2 where "b2 = 0x80 + c"
  have b0: "0xE0 \<le> b0" "b0 < 0xF0" unfolding b0_def using a by linarith+
  have b1: "0x80 \<le> b1" "b1 \<le> 0xBF" unfolding b1_def using b by linarith+
  have b2: "0x80 \<le> b2" "b2 \<le> 0xBF" unfolding b2_def using c by linarith+
  have lo0: "b0 = 0xE0 \<Longrightarrow> 0xA0 \<le> b1" unfolding b0_def b1_def using assms ra c by linarith
  have hi0: "b0 = 0xED \<Longrightarrow> b1 \<le> 0x9F"
  proof -
    assume "b0 = 0xED"
    then have a13: "a = 13" unfolding b0_def by linarith
    have "r \<le> 57343" using ra a13 b c by linarith
    then have "r < 55296" using assms by linarith
    then have "b < 32" using ra a13 by linarith
    then show ?thesis unfolding b1_def by linarith
  qed
  have c0: "of_char (char_of b0) = b0" using b0 by (intro byte_char) linarith
  have c1: "of_char (char_of b1) = b1" using b1 by (intro byte_char) linarith
  have c2: "of_char (char_of b2) = b2" using b2 by (intro byte_char) linarith
  have m: "b0 mod 16 = a" "b1 mod 64 = b" "b2 mod 64 = c"
    unfolding b0_def b1_def b2_def using a b c by (simp_all add: low4 low6)
  have f: "\<not> r \<le> 0x7F" "\<not> r \<le> 0x7FF" "r \<le> 0xFFFF"
    "\<not> (0x10FFFF < r \<or> (0xD800 \<le> r \<and> r \<le> 0xDFFF))"
    using assms by linarith+
  have e: "EncodeRune r = [char_of b0, char_of b1, char_of b2]"
    unfolding EncodeRune_def by (simp only: f if_False if_True b0_def b1_def b2_def d b_def x_def c_def)
  have sl: "seqLen (of_char (char_of b0)) = 3" unfolding c0 using b0 by (simp add: seqLen_def)
  have lo: "acceptLo (of_char (char_of b0)) \<le> of_char (char_of b1)"
    unfolding c0 c1 using b0 b1 lo0 by (simp add: acceptLo_def)
  have hi: "of_char (char_of b1) \<le> acceptHi (of_char (char_of b0))"
    unfolding c0 c1 using b0 b1 hi0 by (simp add: acceptHi_def)
  have co: "isCont (of_char (char_of b2))" unfolding c2 using b2 by (simp add: isCont_def)
  show ?thesis
    unfolding e using decode_three [OF sl lo hi co, of t] by (simp only: c0 c1 c2 m ra append.simps)
qed

lemma decode_encode4:
  assumes "0xFFFF < r" "r \<le> 0x10FFFF"
  shows "DecodeRuneInString (EncodeRune r @ t) = (r, 4)"
proof -
  define c where "c = r mod 64"
  define x where "x = r div 64"
  define b where "b = x mod 64"
  define y where "y = x div 64"
  define a where "a = y mod 64"
  define z where "z = y div 64"
  have rx: "r = x * 64 + c" by (simp add: x_def c_def)
  have xy: "x = y * 64 + b" by (simp add: y_def b_def)
  have yz: "y = z * 64 + a" by (simp add: z_def a_def)
  have ra: "r = z * 262144 + a * 4096 + b * 64 + c" using rx xy yz by simp
  have c: "c < 64" by (simp add: c_def)
  have b: "b < 64" by (simp add: b_def)
  have a: "a < 64" by (simp add: a_def)
  have z: "z < 5" using assms ra by linarith
  have dy: "r div 4096 = y" unfolding y_def x_def by (simp add: div_mult2_eq)
  have dz: "r div 262144 = z" unfolding z_def y_def x_def by (simp add: div_mult2_eq)
  define b0 where "b0 = 0xF0 + z"
  define b1 where "b1 = 0x80 + a"
  define b2 where "b2 = 0x80 + b"
  define b3 where "b3 = 0x80 + c"
  have b0: "0xF0 \<le> b0" "b0 < 0xF5" unfolding b0_def using z by linarith+
  have b1: "0x80 \<le> b1" "b1 \<le> 0xBF" unfolding b1_def using a by linarith+
  have b2: "0x80 \<le> b2" "b2 \<le> 0xBF" unfolding b2_def using b by linarith+
  have b3: "0x80 \<le> b3" "b3 \<le> 0xBF" unfolding b3_def using c by linarith+
  have lo0: "b0 = 0xF0 \<Longrightarrow> 0x90 \<le> b1" unfolding b0_def b1_def using assms ra b c by linarith
  have hi0: "b0 = 0xF4 \<Longrightarrow> b1 \<le> 0x8F" unfolding b0_def b1_def using assms ra by linarith
  have c0: "of_char (char_of b0) = b0" using b0 by (intro byte_char) linarith
  have c1: "of_char (char_of b1) = b1" using b1 by (intro byte_char) linarith
  have c2: "of_char (char_of b2) = b2" using b2 by (intro byte_char) linarith
  have c3: "of_char (char_of b3) = b3" using b3 by (intro byte_char) linarith
  have m: "b0 mod 8 = z" "b1 mod 64 = a" "b2 mod 64 = b" "b3 mod 64 = c"
    unfolding b0_def b1_def b2_def b3_def using z a b c by (simp_all add: low3 low6)
  have f: "\<not> r \<le> 0x7F" "\<not> r \<le> 0x7FF" "\<not> r \<le> 0xFFFF"
    "\<not> (0x10FFFF < r \<or> (0xD800 \<le> r \<and> r \<le> 0xDFFF))"
    using assms by linarith+
  have e: "EncodeRune r = [char_of b0, char_of b1, char_of b2, char_of b3]"
    unfolding EncodeRune_def
    by (simp only: f if_False if_True b0_def b1_def b2_def b3_def dy dz a_def b_def y_def x_def c_def)
  have sl: "seqLen (of_char (char_of b0)) = 4" unfolding c0 using b0 by (simp add: seqLen_def)
  have lo: "acceptLo (of_char (char_of b0)) \<le> of_char (char_of b1)"
    unfolding c0 c1 using b0 b1 lo0 by (simp add: acceptLo_def)
  have hi: "of_char (char_of b1) \<le> acceptHi (of_char (char_of b0))"
    unfolding c0 c1 using b0 b1 hi0 by (simp add: acceptHi_def)
  have co2: "isCont (of_char (char_of b2))" unfolding c2 using b2 by (simp add: isCont_def)
  have co3: "isCont (of_char (char_of b3))" unfolding c3 using b3 by (simp add: isCont_def)
  show ?thesis
    unfolding e using decode_four [OF sl lo hi co2 co3, of t]
    by (simp only: c0 c1 c2 c3 m ra append.simps)
qed

lemma seqLen_cases:
  "seqLen b = 0 \<or> seqLen b = 1 \<or> seqLen b = 2 \<or> seqLen b = 3 \<or> seqLen b = 4"
  by (simp add: seqLen_def)

lemma decode_zero: "seqLen (of_char c0) = 0 \<Longrightarrow> DecodeRuneInString (c0 # t) = (RuneError, 1)"
  by (simp add: Let_def)

lemma decode_two_cases:
  assumes "seqLen (of_char c0) = 2"
  shows "DecodeRuneInString (c0 # t) = (RuneError, 1)
         \<or> (\<exists>c1 t'. t = c1 # t' \<and> acceptLo (of_char c0) \<le> of_char c1
               \<and> of_char c1 \<le> acceptHi (of_char c0)
               \<and> DecodeRuneInString (c0 # t)
                   = ((of_char c0 mod 32) * 64 + of_char c1 mod 64, 2))"
proof (cases t)
  case Nil
  then show ?thesis using assms by (simp add: Let_def)
next
  case (Cons c1 t')
  show ?thesis
  proof (cases "of_char c1 < acceptLo (of_char c0) \<or> acceptHi (of_char c0) < of_char c1")
    case True
    then have "DecodeRuneInString (c0 # t) = (RuneError, 1)"
      using assms Cons by (simp add: Let_def)
    then show ?thesis by blast
  next
    case False
    then have "acceptLo (of_char c0) \<le> of_char c1" "of_char c1 \<le> acceptHi (of_char c0)"
      by simp_all
    then show ?thesis using decode_two [OF assms, of c1 t'] Cons by blast
  qed
qed

lemma decode_three_cases:
  assumes "seqLen (of_char c0) = 3"
  shows "DecodeRuneInString (c0 # t) = (RuneError, 1)
         \<or> (\<exists>c1 c2 t'. t = c1 # c2 # t' \<and> acceptLo (of_char c0) \<le> of_char c1
               \<and> of_char c1 \<le> acceptHi (of_char c0) \<and> isCont (of_char c2)
               \<and> DecodeRuneInString (c0 # t)
                   = ((of_char c0 mod 16) * 4096 + (of_char c1 mod 64) * 64
                      + of_char c2 mod 64, 3))"
proof (cases t)
  case Nil
  then show ?thesis using assms by (simp add: Let_def)
next
  case c1: (Cons c1 t1)
  show ?thesis
  proof (cases t1)
    case Nil
    then show ?thesis using assms c1 by (simp add: Let_def)
  next
    case c2: (Cons c2 t')
    show ?thesis
    proof (cases "of_char c1 < acceptLo (of_char c0) \<or> acceptHi (of_char c0) < of_char c1
                  \<or> \<not> isCont (of_char c2)")
      case True
      then have "DecodeRuneInString (c0 # t) = (RuneError, 1)"
        using assms c1 c2 by (auto simp add: Let_def)
      then show ?thesis by blast
    next
      case False
      then have "acceptLo (of_char c0) \<le> of_char c1" "of_char c1 \<le> acceptHi (of_char c0)"
        "isCont (of_char c2)"
        by simp_all
      then show ?thesis using decode_three [OF assms, of c1 c2 t'] c1 c2 by blast
    qed
  qed
qed

lemma decode_four_cases:
  assumes "seqLen (of_char c0) = 4"
  shows "DecodeRuneInString (c0 # t) = (RuneError, 1)
         \<or> (\<exists>c1 c2 c3 t'. t = c1 # c2 # c3 # t' \<and> acceptLo (of_char c0) \<le> of_char c1
               \<and> of_char c1 \<le> acceptHi (of_char c0) \<and> isCont (of_char c2)
               \<and> isCont (of_char c3)
               \<and> DecodeRuneInString (c0 # t)
                   = ((of_char c0 mod 8) * 262144 + (of_char c1 mod 64) * 4096
                      + (of_char c2 mod 64) * 64 + of_char c3 mod 64, 4))"
proof (cases t)
  case Nil
  then show ?thesis using assms by (simp add: Let_def)
next
  case c1: (Cons c1 t1)
  show ?thesis
  proof (cases t1)
    case Nil
    then show ?thesis using assms c1 by (simp add: Let_def)
  next
    case c2: (Cons c2 t2)
    show ?thesis
    proof (cases t2)
      case Nil
      then show ?thesis using assms c1 c2 by (simp add: Let_def)
    next
      case c3: (Cons c3 t')
      show ?thesis
      proof (cases "of_char c1 < acceptLo (of_char c0) \<or> acceptHi (of_char c0) < of_char c1
                    \<or> \<not> isCont (of_char c2) \<or> \<not> isCont (of_char c3)")
        case True
        then have "DecodeRuneInString (c0 # t) = (RuneError, 1)"
          using assms c1 c2 c3 by (auto simp add: Let_def)
        then show ?thesis by blast
      next
        case False
        then have "acceptLo (of_char c0) \<le> of_char c1" "of_char c1 \<le> acceptHi (of_char c0)"
          "isCont (of_char c2)" "isCont (of_char c3)"
          by simp_all
        then show ?thesis using decode_four [OF assms, of c1 c2 c3 t'] c1 c2 c3 by blast
      qed
    qed
  qed
qed

lemma mod64_of_cont: "isCont b \<Longrightarrow> b mod 64 = b - 128"
proof -
  assume "isCont b"
  then have b: "128 \<le> b" "b \<le> 191" by (simp_all add: isCont_def)
  then have "b = 128 + (b - 128)" by simp
  then have "b mod 64 = (b - 128) mod 64" using low6 [of "b - 128"] by simp
  then show ?thesis using b by simp
qed

lemma accept_cont: "acceptLo b0 \<le> b \<Longrightarrow> b \<le> acceptHi b0 \<Longrightarrow> isCont b"
  by (auto simp: acceptLo_def acceptHi_def isCont_def split: if_splits)

lemma decode_valid: "ValidRune (fst (DecodeRuneInString s))"
proof (cases s)
  case Nil
  then show ?thesis by (simp add: ValidRune_def RuneError_def)
next
  case (Cons c0 t)
  define s0 :: nat where "s0 = of_char c0"
  have err: "ValidRune (fst (RuneError, 1::nat))" by (simp add: ValidRune_def RuneError_def)
  consider (z) "seqLen s0 = 0" | (one) "seqLen s0 = 1" | (two) "seqLen s0 = 2"
    | (three) "seqLen s0 = 3" | (four) "seqLen s0 = 4"
    using seqLen_cases [of s0] by auto
  then show ?thesis
  proof cases
    case z
    then show ?thesis using decode_zero [of c0 t] err Cons by (simp add: s0_def)
  next
    case one
    then have "s0 < 0x80" by (simp add: seqLen_def split: if_splits)
    moreover have "DecodeRuneInString s = (s0, 1)"
      using one decode_one [of c0 t] Cons by (simp add: s0_def)
    ultimately show ?thesis by (simp add: ValidRune_def)
  next
    case two
    then have sl: "seqLen (of_char c0) = 2" by (simp add: s0_def)
    from decode_two_cases [OF sl, of t] show ?thesis
    proof
      assume "DecodeRuneInString (c0 # t) = (RuneError, 1)"
      then show ?thesis using err Cons by simp
    next
      assume "\<exists>c1 t'. t = c1 # t' \<and> acceptLo (of_char c0) \<le> of_char c1
               \<and> of_char c1 \<le> acceptHi (of_char c0)
               \<and> DecodeRuneInString (c0 # t)
                   = ((of_char c0 mod 32) * 64 + of_char c1 mod 64, 2)"
      then obtain c1 where d: "DecodeRuneInString (c0 # t)
                   = ((of_char c0 mod 32) * 64 + of_char c1 mod 64, 2)" by blast
      have "(of_char c0 :: nat) mod 32 < 32" "(of_char c1 :: nat) mod 64 < 64" by simp_all
      then have "((of_char c0 :: nat) mod 32) * 64 + of_char c1 mod 64 < 2048" by linarith
      then show ?thesis using d Cons by (simp add: ValidRune_def)
    qed
  next
    case three
    then have sl: "seqLen (of_char c0) = 3" by (simp add: s0_def)
    from three have r0: "0xE0 \<le> s0" "s0 < 0xF0" by (simp_all add: seqLen_def split: if_splits)
    from decode_three_cases [OF sl, of t] show ?thesis
    proof
      assume "DecodeRuneInString (c0 # t) = (RuneError, 1)"
      then show ?thesis using err Cons by simp
    next
      assume "\<exists>c1 c2 t'. t = c1 # c2 # t' \<and> acceptLo (of_char c0) \<le> of_char c1
               \<and> of_char c1 \<le> acceptHi (of_char c0) \<and> isCont (of_char c2)
               \<and> DecodeRuneInString (c0 # t)
                   = ((of_char c0 mod 16) * 4096 + (of_char c1 mod 64) * 64
                      + of_char c2 mod 64, 3)"
      then obtain c1 c2 where lo: "acceptLo s0 \<le> of_char c1" and hi: "of_char c1 \<le> acceptHi s0"
        and d: "DecodeRuneInString (c0 # t)
                   = ((s0 mod 16) * 4096 + (of_char c1 mod 64) * 64 + of_char c2 mod 64, 3)"
        unfolding s0_def by blast
      define a where "a = s0 - 0xE0"
      have a: "a < 16" "s0 = 224 + a" using r0 by (simp_all add: a_def)
      have ma: "s0 mod 16 = a" using a low4 [of a] by simp
      define s1 :: nat where "s1 = of_char c1"
      have c1: "isCont s1" using lo hi accept_cont unfolding s1_def by blast
      define b where "b = s1 - 128"
      have mb: "s1 mod 64 = b" using mod64_of_cont [OF c1] by (simp add: b_def)
      have b: "b < 64" using c1 unfolding b_def isCont_def by linarith
      have b13: "a = 13 \<Longrightarrow> b < 32"
      proof -
        assume "a = 13"
        then have "s0 = 0xED" using a by simp
        then have "s1 \<le> 0x9F" using hi by (simp add: acceptHi_def s1_def)
        then show ?thesis by (simp add: b_def)
      qed
      define c :: nat where "c = of_char c2 mod 64"
      have c: "c < 64" by (simp add: c_def)
      define v where "v = a * 4096 + b * 64 + c"
      have v: "v \<le> 0xFFFF" using a b c by (simp add: v_def)
      have ns: "\<not> (0xD800 \<le> v \<and> v \<le> 0xDFFF)"
      proof (cases "a = 13")
        case True
        then have "v < 0xD800" using b13 c by (simp add: v_def)
        then show ?thesis by simp
      next
        case False
        then consider "a \<le> 12" | "14 \<le> a" by linarith
        then show ?thesis
        proof cases
          case 1
          then have "v < 0xD800" using b c by (simp add: v_def)
          then show ?thesis by simp
        next
          case 2
          then have "0xDFFF < v" by (simp add: v_def)
          then show ?thesis by simp
        qed
      qed
      have "fst (DecodeRuneInString s) = v"
        using d Cons ma mb by (simp add: v_def c_def s1_def)
      then show ?thesis using v ns by (simp add: ValidRune_def)
    qed
  next
    case four
    then have sl: "seqLen (of_char c0) = 4" by (simp add: s0_def)
    from four have r0: "0xF0 \<le> s0" "s0 < 0xF5" by (simp_all add: seqLen_def split: if_splits)
    from decode_four_cases [OF sl, of t] show ?thesis
    proof
      assume "DecodeRuneInString (c0 # t) = (RuneError, 1)"
      then show ?thesis using err Cons by simp
    next
      assume "\<exists>c1 c2 c3 t'. t = c1 # c2 # c3 # t' \<and> acceptLo (of_char c0) \<le> of_char c1
               \<and> of_char c1 \<le> acceptHi (of_char c0) \<and> isCont (of_char c2)
               \<and> isCont (of_char c3)
               \<and> DecodeRuneInString (c0 # t)
                   = ((of_char c0 mod 8) * 262144 + (of_char c1 mod 64) * 4096
                      + (of_char c2 mod 64) * 64 + of_char c3 mod 64, 4)"
      then obtain c1 c2 c3 where lo: "acceptLo s0 \<le> of_char c1"
        and hi: "of_char c1 \<le> acceptHi s0"
        and d: "DecodeRuneInString (c0 # t)
                   = ((s0 mod 8) * 262144 + (of_char c1 mod 64) * 4096
                      + (of_char c2 mod 64) * 64 + of_char c3 mod 64, 4)"
        unfolding s0_def by blast
      define z where "z = s0 - 0xF0"
      have z: "z < 5" "s0 = 240 + z" using r0 by (simp_all add: z_def)
      have mz: "s0 mod 8 = z" using z low3 [of z] by simp
      define s1 :: nat where "s1 = of_char c1"
      have c1: "isCont s1" using lo hi accept_cont unfolding s1_def by blast
      define a where "a = s1 - 128"
      have ma: "s1 mod 64 = a" using mod64_of_cont [OF c1] by (simp add: a_def)
      have a: "a < 64" using c1 unfolding a_def isCont_def by linarith
      have a0: "z = 0 \<Longrightarrow> 16 \<le> a"
      proof -
        assume "z = 0"
        then have "s0 = 0xF0" using z by simp
        then have "0x90 \<le> s1" using lo by (simp add: acceptLo_def s1_def)
        then show ?thesis by (simp add: a_def)
      qed
      have a4: "z = 4 \<Longrightarrow> a < 16"
      proof -
        assume "z = 4"
        then have "s0 = 0xF4" using z by simp
        then have "s1 \<le> 0x8F" using hi by (simp add: acceptHi_def s1_def)
        then show ?thesis by (simp add: a_def)
      qed
      define b :: nat where "b = of_char c2 mod 64"
      define c :: nat where "c = of_char c3 mod 64"
      have bc: "b < 64" "c < 64" by (simp_all add: b_def c_def)
      define v where "v = z * 262144 + a * 4096 + b * 64 + c"
      have hi': "v \<le> 0x10FFFF"
      proof (cases "z = 4")
        case True
        then show ?thesis using a4 bc by (simp add: v_def)
      next
        case False
        then have "z \<le> 3" using z by simp
        then show ?thesis using a bc by (simp add: v_def)
      qed
      have lo': "0xDFFF < v"
      proof (cases "z = 0")
        case True
        then show ?thesis using a0 by (simp add: v_def)
      next
        case False
        then have "1 \<le> z" by simp
        then show ?thesis by (simp add: v_def)
      qed
      have "fst (DecodeRuneInString s) = v"
        using d Cons mz ma by (simp add: v_def b_def c_def s1_def)
      then show ?thesis using hi' lo' by (simp add: ValidRune_def)
    qed
  qed
qed

lemma runes_valid: "r \<in> set (runes s) \<Longrightarrow> ValidRune r"
proof (induction s arbitrary: r rule: runes.induct)
  case 1
  then show ?case by simp
next
  case (2 c s)
  from "2.prems" have "r = fst (DecodeRuneInString (c # s))
      \<or> r \<in> set (runes (drop (snd (DecodeRuneInString (c # s)) - 1) s))"
    by simp
  then show ?case using "2.IH" decode_valid [of "c # s"] by blast
qed

lemma length_EncodeRune:
  "ValidRune r \<Longrightarrow> length (EncodeRune r)
     = (if r \<le> 0x7F then 1 else if r \<le> 0x7FF then 2 else if r \<le> 0xFFFF then 3 else 4)"
  unfolding EncodeRune_def ValidRune_def by simp


lemma decode_encode:
  assumes "ValidRune r"
  shows "DecodeRuneInString (EncodeRune r @ t) = (r, length (EncodeRune r))"
proof -
  have v: "r \<le> 0x10FFFF" "\<not> (0xD800 \<le> r \<and> r \<le> 0xDFFF)"
    using assms by (simp_all add: ValidRune_def)
  note len = length_EncodeRune [OF assms]
  consider (a) "r \<le> 0x7F" | (b) "0x7F < r" "r \<le> 0x7FF" | (c) "0x7FF < r" "r \<le> 0xFFFF"
    | (d) "0xFFFF < r"
    by linarith
  then show ?thesis
  proof cases
    case a
    then have "length (EncodeRune r) = 1" using len by simp
    then show ?thesis using decode_encode1 [OF a, of t] by simp
  next
    case b
    then have "length (EncodeRune r) = 2" using len by simp
    then show ?thesis using decode_encode2 [OF b, of t] by simp
  next
    case c
    then have "length (EncodeRune r) = 3" using len by simp
    then show ?thesis using decode_encode3 [OF c v(2), of t] by simp
  next
    case d
    then have "length (EncodeRune r) = 4" using len by simp
    then show ?thesis using decode_encode4 [OF d v(1), of t] by simp
  qed
qed


lemma EncodeRune_not_Nil: "EncodeRune r \<noteq> []"
  unfolding EncodeRune_def by simp

text \<open>A valid rune written by \<open>string(r)\<close> reads back as that one rune.\<close>

lemma runes_EncodeRune:
  assumes "ValidRune r"
  shows "runes (EncodeRune r) = [r]"
proof -
  obtain c t where e: "EncodeRune r = c # t"
    using EncodeRune_not_Nil [of r] by (cases "EncodeRune r") blast+
  have d: "DecodeRuneInString (c # t) = (r, Suc (length t))"
    using decode_encode [OF assms, of "[]"] e by simp
  have "runes (c # t) = r # runes (drop (length t) t)"
    by (simp only: runes.simps d fst_conv snd_conv diff_Suc_1)
  then show ?thesis using e by simp
qed

lemma EncodeRune_inj:
  assumes "ValidRune r" "ValidRune r'" "EncodeRune r = EncodeRune r'"
  shows "r = r'"
proof -
  have "[r] = runes (EncodeRune r)" using runes_EncodeRune [OF assms(1)] by simp
  also have "\<dots> = runes (EncodeRune r')" using assms(3) by simp
  also have "\<dots> = [r']" using runes_EncodeRune [OF assms(2)] by simp
  finally show ?thesis by simp
qed

lemma EncodeRune_inj_on_runes: "inj_on EncodeRune (set (runes s))"
proof (rule inj_onI)
  fix r r'
  assume "r \<in> set (runes s)" "r' \<in> set (runes s)" "EncodeRune r = EncodeRune r'"
  then show "r = r'" using EncodeRune_inj runes_valid by blast
qed

subsection \<open>The frequency map\<close>

lemma keys_freqIncr: "fst ` set (freqIncr k m) = insert k (fst ` set m)"
  by (induction k m rule: freqIncr.induct) auto

lemma distinct_freqIncr: "distinct (map fst m) \<Longrightarrow> distinct (map fst (freqIncr k m))"
proof (induction k m rule: freqIncr.induct)
  case (1 k)
  then show ?case by simp
next
  case (2 k k' n m)
  have "fst ` set (freqIncr k m) = insert k (fst ` set m)" by (rule keys_freqIncr)
  with 2 show ?case by auto
qed

lemma sum_freqIncr: "sum_list (map snd (freqIncr k m)) = sum_list (map snd m) + 1"
  by (induction k m rule: freqIncr.induct) auto

lemma length_freqIncr:
  "length (freqIncr k m) = (if k \<in> fst ` set m then length m else length m + 1)"
  by (induction k m rule: freqIncr.induct) auto

text \<open>\<open>freqIncr\<close> is the map update \<open>m[k]++\<close>.\<close>

lemma map_of_freqIncr:
  "map_of (freqIncr k m) =
     (map_of m)(k \<mapsto> (case map_of m k of None \<Rightarrow> 1 | Some n \<Rightarrow> n + 1))"
  by (induction k m rule: freqIncr.induct) (auto simp: fun_eq_iff)

lemma keys_freqLoop: "fst ` set (freqLoop rs m) = fst ` set m \<union> EncodeRune ` set rs"
  by (induction rs arbitrary: m) (auto simp: keys_freqIncr)

lemma distinct_freqLoop: "distinct (map fst m) \<Longrightarrow> distinct (map fst (freqLoop rs m))"
  by (induction rs arbitrary: m) (simp_all add: distinct_freqIncr)

lemma sum_freqLoop: "sum_list (map snd (freqLoop rs m)) = sum_list (map snd m) + int (length rs)"
  by (induction rs arbitrary: m) (simp_all add: sum_freqIncr)

lemma map_of_freqLoop:
  "map_of (freqLoop rs m) k =
     (let c = int (length (filter (\<lambda>r. EncodeRune r = k) rs)) in
      case map_of m k of
        None \<Rightarrow> if c = 0 then None else Some c
      | Some n \<Rightarrow> Some (n + c))"
proof (induction rs arbitrary: m)
  case Nil
  then show ?case by (simp split: option.splits)
next
  case (Cons r rs)
  show ?case
    by (simp add: Cons.IH map_of_freqIncr Let_def split: option.splits)
qed

lemma length_card_keys: "distinct (map fst m) \<Longrightarrow> length m = card (fst ` set m)"
  using distinct_card [of "map fst m"] by simp

lemma count_list_filter: "count_list xs r = length (filter (\<lambda>r'. r' = r) xs)"
  by (induction xs) simp_all

lemma count_by_key:
  assumes "r \<in> set (runes s)"
  shows "filter (\<lambda>r'. EncodeRune r' = EncodeRune r) (runes s) = filter (\<lambda>r'. r' = r) (runes s)"
proof (rule filter_cong)
  show "runes s = runes s" by simp
next
  fix r'
  assume "r' \<in> set (runes s)"
  then show "(EncodeRune r' = EncodeRune r) = (r' = r)"
    using assms EncodeRune_inj runes_valid by blast
qed

text \<open>
  Claim C9.  The keys of \<open>CharacterFrequencyMap\<close> are pairwise distinct and are exactly
  the strings \<open>string(r)\<close> of the code points \<open>r\<close> that \<open>range value\<close> yields; each key
  is a one-character string (it reads back as the one rune \<open>r\<close>) and its value is the
  number of occurrences of \<open>r\<close>; the values sum to the number of code points of the
  string; and \<open>UniqueCharacters\<close> is the number of keys, which is the number of distinct
  code points.
\<close>

theorem C9_character_frequency_map:
  "distinct (map fst (CharacterFrequencyMap (ComputeProperties L s)))
   \<and> fst ` set (CharacterFrequencyMap (ComputeProperties L s)) = EncodeRune ` set (runes s)
   \<and> (\<forall>r\<in>set (runes s). runes (EncodeRune r) = [r]
         \<and> map_of (CharacterFrequencyMap (ComputeProperties L s)) (EncodeRune r)
             = Some (int (count_list (runes s) r)))
   \<and> sum_list (map snd (CharacterFrequencyMap (ComputeProperties L s))) = int (length (runes s))
   \<and> UniqueCharacters (ComputeProperties L s)
       = int (card (fst ` set (CharacterFrequencyMap (ComputeProperties L s))))
   \<and> UniqueCharacters (ComputeProperties L s) = int (card (set (runes s)))"
proof -
  define m where "m = freqLoop (runes s) []"
  have cfm: "CharacterFrequencyMap (ComputeProperties L s) = m"
    by (simp add: ComputeProperties_def Let_def m_def)
  have uc: "UniqueCharacters (ComputeProperties L s) = int (length m)"
    by (simp add: ComputeProperties_def Let_def m_def)
  have d: "distinct (map fst m)" unfolding m_def by (rule distinct_freqLoop) simp
  have k: "fst ` set m = EncodeRune ` set (runes s)" unfolding m_def by (simp add: keys_freqLoop)
  have s: "sum_list (map snd m) = int (length (runes s))" unfolding m_def by (simp add: sum_freqLoop)
  have l: "length m = card (fst ` set m)" using d by (rule length_card_keys)
  have c: "card (EncodeRune ` set (runes s)) = card (set (runes s))"
    by (rule card_image) (rule EncodeRune_inj_on_runes)
  have v: "\<forall>r\<in>set (runes s). runes (EncodeRune r) = [r]
         \<and> map_of m (EncodeRune r) = Some (int (count_list (runes s) r))"
  proof
    fix r
    assume r: "r \<in> set (runes s)"
    have one: "runes (EncodeRune r) = [r]" using r runes_valid runes_EncodeRune by blast
    have "filter (\<lambda>r'. r' = r) (runes s) \<noteq> []" using r by (simp add: filter_empty_conv)
    then have pos: "length (filter (\<lambda>r'. EncodeRune r' = EncodeRune r) (runes s)) \<noteq> 0"
      using count_by_key [OF r] by simp
    have "map_of m (EncodeRune r)
          = Some (int (length (filter (\<lambda>r'. EncodeRune r' = EncodeRune r) (runes s))))"
      unfolding m_def using pos by (simp add: map_of_freqLoop Let_def)
    also have "length (filter (\<lambda>r'. EncodeRune r' = EncodeRune r) (runes s)) = count_list (runes s) r"
      using count_by_key [OF r] by (simp only: count_list_filter)
    finally show "runes (EncodeRune r) = [r]
         \<and> map_of m (EncodeRune r) = Some (int (count_list (runes s) r))"
      using one by simp
  qed
  show ?thesis unfolding cfm uc using d k v s l c by simp
qed


theorem C9_character_frequency_map_witness:
  "UniqueCharacters (ComputeProperties latin1 [CHR ''a'', CHR 0xC3, CHR 0xA9, CHR ''a'']) = 2
   \<and> sum_list (map snd (CharacterFrequencyMap
         (ComputeProperties latin1 [CHR ''a'', CHR 0xC3, CHR 0xA9, CHR ''a'']))) = 3
   \<and> map_of (CharacterFrequencyMap
         (ComputeProperties latin1 [CHR ''a'', CHR 0xC3, CHR 0xA9, CHR ''a''])) ''a'' = Some 2
   \<and> map_of (CharacterFrequencyMap
         (ComputeProperties latin1 [CHR ''a'', CHR 0xC3, CHR 0xA9, CHR ''a'']))
         [CHR 0xC3, CHR 0xA9] = Some 1"
proof -
  define s where "s = [CHR ''a'', CHR 0xC3, CHR 0xA9, CHR ''a'']"
  define p where "p = ComputeProperties latin1 s"
  have r: "runes s = [97, 233, 97]" unfolding s_def by code_simp
  have e: "EncodeRune 97 = ''a''" "EncodeRune 233 = [CHR 0xC3, CHR 0xA9]" by code_simp+
  note t = C9_character_frequency_map [of latin1 s, folded p_def]
  have "UniqueCharacters p = int (card (set (runes s)))" using t by blast
  moreover have "card (set [97::nat, 233, 97]) = 2" by code_simp
  ultimately have u: "UniqueCharacters p = 2" unfolding r by (simp only: of_nat_numeral)
  have "sum_list (map snd (CharacterFrequencyMap p)) = int (length (runes s))" using t by blast
  then have l: "sum_list (map snd (CharacterFrequencyMap p)) = 3" unfolding r by simp
  have b: "\<forall>r\<in>set (runes s). map_of (CharacterFrequencyMap p) (EncodeRune r)
             = Some (int (count_list (runes s) r))"
    using t by blast
  have "map_of (CharacterFrequencyMap p) (EncodeRune 97) = Some (int (count_list (runes s) 97))"
    using b unfolding r by simp
  then have a: "map_of (CharacterFrequencyMap p) ''a'' = Some 2" unfolding r e by simp
  have "map_of (CharacterFrequencyMap p) (EncodeRune 233) = Some (int (count_list (runes s) 233))"
    using b unfolding r by simp
  then have c: "map_of (CharacterFrequencyMap p) [CHR 0xC3, CHR 0xA9] = Some 1" unfolding r e by simp
  show ?thesis using u l a c unfolding p_def s_def by blast
qed

section \<open>\<open>matchesFilters\<close>\<close>

lemma matchesFilters_step:
  assumes "type_ok key val"
  shows "matchesFilters res ((key, val) # rest) =
           (if holds (Properties res) key val then matchesFilters res rest else Inr False)"
proof -
  have m: "(map_of (CharacterFrequencyMap (Properties res)) c = None)
           = (c \<notin> fst ` set (CharacterFrequencyMap (Properties res)))" for c
    by (simp add: map_of_eq_None_iff)
  consider (p) "key = ''is_palindrome''" | (mn) "key = ''min_length''" | (mx) "key = ''max_length''"
    | (w) "key = ''word_count''" | (c) "key = ''contains_character''"
    | (o) "key \<noteq> ''is_palindrome''" "key \<noteq> ''min_length''" "key \<noteq> ''max_length''"
          "key \<noteq> ''word_count''" "key \<noteq> ''contains_character''"
    by blast
  then show ?thesis
  proof cases
    case p
    then obtain b where "val = VBool b" using assms by (cases val) (simp_all add: type_ok_def)
    then show ?thesis using p by (simp add: holds_def)
  next
    case mn
    then obtain n where "val = VInt n" using assms by (cases val) (simp_all add: type_ok_def)
    then show ?thesis using mn by (simp add: holds_def)
  next
    case mx
    then obtain n where "val = VInt n" using assms by (cases val) (simp_all add: type_ok_def)
    then show ?thesis using mx by (simp add: holds_def)
  next
    case w
    then obtain n where "val = VInt n" using assms by (cases val) (simp_all add: type_ok_def)
    then show ?thesis using w by (simp add: holds_def)
  next
    case c
    then obtain ch where "val = VString ch" using assms by (cases val) (simp_all add: type_ok_def)
    then show ?thesis using c m by (simp add: holds_def)
  next
    case o
    then show ?thesis by (simp add: holds_def)
  qed
qed

lemma matchesFilters_all:
  "(\<And>k v. (k, v) \<in> set kvs \<Longrightarrow> type_ok k v) \<Longrightarrow>
   matchesFilters res kvs = Inr (\<forall>(k, v)\<in>set kvs. holds (Properties res) k v)"
proof (induction kvs)
  case Nil
  then show ?case by simp
next
  case (Cons kv kvs)
  obtain k v where kv: "kv = (k, v)" by (cases kv)
  have t: "type_ok k v" using Cons.prems kv by simp
  have ih: "matchesFilters res kvs = Inr (\<forall>(k, v)\<in>set kvs. holds (Properties res) k v)"
    using Cons by simp
  show ?case unfolding kv by (simp only: matchesFilters_step [OF t] ih) auto
qed

lemma satisfies_holds:
  assumes "satisfies p f" "f k = Some v"
  shows "holds p k v"
proof -
  consider (p) "k = ''is_palindrome''" | (mn) "k = ''min_length''" | (mx) "k = ''max_length''"
    | (w) "k = ''word_count''" | (c) "k = ''contains_character''"
    | (o) "k \<noteq> ''is_palindrome''" "k \<noteq> ''min_length''" "k \<noteq> ''max_length''"
          "k \<noteq> ''word_count''" "k \<noteq> ''contains_character''"
    by blast
  then show ?thesis
  proof cases
    case p
    have "case f ''is_palindrome'' of Some (VBool b) \<Rightarrow> IsPalindrome p = b | _ \<Rightarrow> True"
      using assms(1) by (simp add: satisfies_def)
    then show ?thesis using p assms(2) by (cases v) (simp_all add: holds_def)
  next
    case mn
    have "case f ''min_length'' of Some (VInt n) \<Rightarrow> Length p \<ge> n | _ \<Rightarrow> True"
      using assms(1) by (simp add: satisfies_def)
    then show ?thesis using mn assms(2) by (cases v) (simp_all add: holds_def)
  next
    case mx
    have "case f ''max_length'' of Some (VInt n) \<Rightarrow> Length p \<le> n | _ \<Rightarrow> True"
      using assms(1) by (simp add: satisfies_def)
    then show ?thesis using mx assms(2) by (cases v) (simp_all add: holds_def)
  next
    case w
    have "case f ''word_count'' of Some (VInt n) \<Rightarrow> WordCount p = n | _ \<Rightarrow> True"
      using assms(1) by (simp add: satisfies_def)
    then show ?thesis using w assms(2) by (cases v) (simp_all add: holds_def)
  next
    case c
    have "case f ''contains_character'' of
            Some (VString c) \<Rightarrow> c \<in> fst ` set (CharacterFrequencyMap p) | _ \<Rightarrow> True"
      using assms(1) by (simp add: satisfies_def)
    then show ?thesis using c assms(2) by (cases v) (simp_all add: holds_def)
  next
    case o
    then show ?thesis by (simp add: holds_def)
  qed
qed

lemma holds_satisfies:
  assumes "\<And>k v. f k = Some v \<Longrightarrow> holds p k v"
  shows "satisfies p f"
proof -
  have h: "holds p k v" if "f k = Some v" for k v using assms that by blast
  have 1: "case f ''is_palindrome'' of Some (VBool b) \<Rightarrow> IsPalindrome p = b | _ \<Rightarrow> True"
    using h [of "''is_palindrome''"] by (auto simp: holds_def split: option.splits any.splits)
  have 2: "case f ''min_length'' of Some (VInt n) \<Rightarrow> Length p \<ge> n | _ \<Rightarrow> True"
    using h [of "''min_length''"] by (auto simp: holds_def split: option.splits any.splits)
  have 3: "case f ''max_length'' of Some (VInt n) \<Rightarrow> Length p \<le> n | _ \<Rightarrow> True"
    using h [of "''max_length''"] by (auto simp: holds_def split: option.splits any.splits)
  have 4: "case f ''word_count'' of Some (VInt n) \<Rightarrow> WordCount p = n | _ \<Rightarrow> True"
    using h [of "''word_count''"] by (auto simp: holds_def split: option.splits any.splits)
  have 5: "case f ''contains_character'' of
            Some (VString c) \<Rightarrow> c \<in> fst ` set (CharacterFrequencyMap p) | _ \<Rightarrow> True"
    using h [of "''contains_character''"] by (auto simp: holds_def split: option.splits any.splits)
  show ?thesis unfolding satisfies_def using 1 2 3 4 5 by blast
qed

text \<open>Claim C3.  For a filter set whose values carry the types the assertions expect,
  \<open>matchesFilters\<close> returns, whatever the order in which \<open>range filters\<close> visits the
  entries, the conjunction of the filters that are present: \<open>is_palindrome\<close> asks for
  equality, \<open>min_length\<close> for \<open>length \<ge> n\<close>, \<open>max_length\<close> for \<open>length \<le> n\<close>,
  \<open>word_count\<close> for equality, and \<open>contains_character\<close> for the string being a key of the
  frequency map (a lookup, not a substring scan).  An absent filter and an entry under
  any other key constrain nothing.\<close>

theorem C3_matchesFilters:
  assumes "range_order f kvs" and "well_typed f"
  shows "matchesFilters res kvs = Inr (satisfies (Properties res) f)"
proof -
  have d: "distinct (map fst kvs)" and m: "map_of kvs = f"
    using assms(1) by (simp_all add: range_order_def)
  have mem: "(k, v) \<in> set kvs \<longleftrightarrow> f k = Some v" for k v
    using map_of_eq_Some_iff [OF d, of k v] m by simp
  have t: "type_ok k v" if "(k, v) \<in> set kvs" for k v
    using that mem assms(2) by (simp add: well_typed_def)
  have "matchesFilters res kvs = Inr (\<forall>(k, v)\<in>set kvs. holds (Properties res) k v)"
    using t by (rule matchesFilters_all)
  moreover have "(\<forall>(k, v)\<in>set kvs. holds (Properties res) k v) = satisfies (Properties res) f"
  proof
    assume a: "\<forall>(k, v)\<in>set kvs. holds (Properties res) k v"
    show "satisfies (Properties res) f"
    proof (rule holds_satisfies)
      fix k v assume "f k = Some v"
      then have "(k, v) \<in> set kvs" using mem by simp
      then show "holds (Properties res) k v" using a by blast
    qed
  next
    assume s: "satisfies (Properties res) f"
    show "\<forall>(k, v)\<in>set kvs. holds (Properties res) k v"
      using satisfies_holds [OF s] mem by blast
  qed
  ultimately show ?thesis by simp
qed


theorem C3_matchesFilters_witness:
  "matchesFilters
     \<lparr> ID = [], Value = ''hello world'',
       Properties = \<lparr> Length = 11, IsPalindrome = False, UniqueCharacters = 8, WordCount = 2,
                      SHA256Hash = [],
                      CharacterFrequencyMap = [(''h'', 1), (''e'', 1), (''l'', 3), (''o'', 2),
                        ('' '', 1), (''w'', 1), (''r'', 1), (''d'', 1)] \<rparr>,
       CreatedAt = 0 \<rparr>
     [(''contains_character'', VString ''o''), (''max_length'', VInt 20), (''colour'', VBool True)]
   = Inr True
   \<and> matchesFilters
     \<lparr> ID = [], Value = ''hello world'',
       Properties = \<lparr> Length = 11, IsPalindrome = False, UniqueCharacters = 8, WordCount = 2,
                      SHA256Hash = [],
                      CharacterFrequencyMap = [(''h'', 1), (''e'', 1), (''l'', 3), (''o'', 2),
                        ('' '', 1), (''w'', 1), (''r'', 1), (''d'', 1)] \<rparr>,
       CreatedAt = 0 \<rparr>
     [(''min_length'', VInt 5), (''contains_character'', VString ''O'')]
   = Inr False"
proof -
  define res where "res =
     \<lparr> ID = [], Value = ''hello world'',
       Properties = \<lparr> Length = 11, IsPalindrome = False, UniqueCharacters = 8, WordCount = 2,
                      SHA256Hash = [],
                      CharacterFrequencyMap = [(''h'', 1), (''e'', 1), (''l'', 3), (''o'', 2),
                        ('' '', 1), (''w'', 1), (''r'', 1), (''d'', 1)] \<rparr>,
       CreatedAt = 0 \<rparr>"
  define k1 where
    "k1 = [(''contains_character'', VString ''o''), (''max_length'', VInt 20), (''colour'', VBool True)]"
  define k2 where "k2 = [(''min_length'', VInt 5), (''contains_character'', VString ''O'')]"
  have r1: "range_order (map_of k1) k1" by (simp add: range_order_def k1_def)
  have r2: "range_order (map_of k2) k2" by (simp add: range_order_def k2_def)
  have w1: "well_typed (map_of k1)"
    by (auto simp: well_typed_def type_ok_def k1_def split: if_splits)
  have w2: "well_typed (map_of k2)"
    by (auto simp: well_typed_def type_ok_def k2_def split: if_splits)
  have s1: "satisfies (Properties res) (map_of k1)" by (simp add: satisfies_def res_def k1_def)
  have s2: "\<not> satisfies (Properties res) (map_of k2)" by (simp add: satisfies_def res_def k2_def)
  have "matchesFilters res k1 = Inr True"
    using C3_matchesFilters [OF r1 w1, of res] s1 by simp
  moreover have "matchesFilters res k2 = Inr False"
    using C3_matchesFilters [OF r2 w2, of res] s2 by simp
  ultimately show ?thesis unfolding res_def k1_def k2_def by blast
qed

section \<open>\<open>parseNaturalLanguageQuery\<close>: it always returns, and what it returns\<close>

lemma Index_bounds:
  "Index s sub \<noteq> -1 \<Longrightarrow> 0 \<le> Index s sub \<and> Index s sub + int (length sub) \<le> int (length s)"
proof (induction s)
  case Nil
  then show ?case by (simp split: if_splits)
next
  case (Cons c s)
  show ?case
  proof (cases "take (length sub) (c # s) = sub")
    case True
    then have "length (take (length sub) (c # s)) = length sub" by simp
    then have "length sub \<le> length (c # s)" by (simp only: length_take)
    then show ?thesis using True by simp
  next
    case False
    then have "Index s sub \<noteq> -1" using Cons.prems by (auto simp: Let_def split: if_splits)
    then show ?thesis using Cons.IH False by (simp add: Let_def)
  qed
qed

lemma Index_set: "Index s sub \<noteq> -1 \<Longrightarrow> set sub \<subseteq> set s"
proof (induction s)
  case Nil
  then show ?case by (simp split: if_splits)
next
  case (Cons c s)
  show ?case
  proof (cases "take (length sub) (c # s) = sub")
    case True
    then have "set sub \<subseteq> set (c # s)" using set_take_subset [of "length sub" "c # s"] by simp
    then show ?thesis .
  next
    case False
    then have "Index s sub \<noteq> -1" using Cons.prems by (auto simp: Let_def split: if_splits)
    then show ?thesis using Cons.IH by auto
  qed
qed

lemma well_typed_upd: "well_typed f \<Longrightarrow> type_ok k v \<Longrightarrow> well_typed (f(k \<mapsto> v))"
  by (simp add: well_typed_def)

lemma well_typed_empty: "well_typed Map.empty"
  by (simp add: well_typed_def)

lemma decode_width_pos: "1 \<le> snd (DecodeRuneInString (c0 # t))"
  using seqLen_cases [of "of_char c0"] decode_zero [of c0 t] decode_one [of c0 t]
    decode_two_cases [of c0 t] decode_three_cases [of c0 t] decode_four_cases [of c0 t]
  by auto

lemma decode_skipped:
  assumes "x \<in> set (take (snd (DecodeRuneInString (c0 # t)) - 1) t)"
  shows "isCont (of_char x)"
proof -
  consider (z) "seqLen (of_char c0) = 0" | (o) "seqLen (of_char c0) = 1"
    | (tw) "seqLen (of_char c0) = 2" | (th) "seqLen (of_char c0) = 3"
    | (f) "seqLen (of_char c0) = 4"
    using seqLen_cases [of "of_char c0"] by auto
  then show ?thesis
  proof cases
    case z
    then show ?thesis using assms decode_zero [OF z, of t] by simp
  next
    case o
    then show ?thesis using assms decode_one [OF o, of t] by simp
  next
    case tw
    from decode_two_cases [OF tw, of t] show ?thesis
    proof
      assume "DecodeRuneInString (c0 # t) = (RuneError, 1)"
      then show ?thesis using assms by simp
    next
      assume "\<exists>c1 t'. t = c1 # t' \<and> acceptLo (of_char c0) \<le> of_char c1
               \<and> of_char c1 \<le> acceptHi (of_char c0)
               \<and> DecodeRuneInString (c0 # t)
                   = ((of_char c0 mod 32) * 64 + of_char c1 mod 64, 2)"
      then obtain c1 t' where t: "t = c1 # t'"
        and a: "acceptLo (of_char c0) \<le> of_char c1" "of_char c1 \<le> acceptHi (of_char c0)"
        and d: "snd (DecodeRuneInString (c0 # t)) = 2"
        by auto
      have "x \<in> set (take (2 - 1) t)" using assms by (simp only: d)
      then have "x = c1" unfolding t by simp
      then show ?thesis using accept_cont [OF a] by simp
    qed
  next
    case th
    from decode_three_cases [OF th, of t] show ?thesis
    proof
      assume "DecodeRuneInString (c0 # t) = (RuneError, 1)"
      then show ?thesis using assms by simp
    next
      assume "\<exists>c1 c2 t'. t = c1 # c2 # t' \<and> acceptLo (of_char c0) \<le> of_char c1
               \<and> of_char c1 \<le> acceptHi (of_char c0) \<and> isCont (of_char c2)
               \<and> DecodeRuneInString (c0 # t)
                   = ((of_char c0 mod 16) * 4096 + (of_char c1 mod 64) * 64
                      + of_char c2 mod 64, 3)"
      then obtain c1 c2 t' where t: "t = c1 # c2 # t'"
        and a: "acceptLo (of_char c0) \<le> of_char c1" "of_char c1 \<le> acceptHi (of_char c0)"
        and c: "isCont (of_char c2)"
        and d: "snd (DecodeRuneInString (c0 # t)) = 3"
        by auto
      have "x \<in> set (take (3 - 1) t)" using assms by (simp only: d)
      then have "x = c1 \<or> x = c2" unfolding t by auto
      then show ?thesis using accept_cont [OF a] c by auto
    qed
  next
    case f
    from decode_four_cases [OF f, of t] show ?thesis
    proof
      assume "DecodeRuneInString (c0 # t) = (RuneError, 1)"
      then show ?thesis using assms by simp
    next
      assume "\<exists>c1 c2 c3 t'. t = c1 # c2 # c3 # t' \<and> acceptLo (of_char c0) \<le> of_char c1
               \<and> of_char c1 \<le> acceptHi (of_char c0) \<and> isCont (of_char c2)
               \<and> isCont (of_char c3)
               \<and> DecodeRuneInString (c0 # t)
                   = ((of_char c0 mod 8) * 262144 + (of_char c1 mod 64) * 4096
                      + (of_char c2 mod 64) * 64 + of_char c3 mod 64, 4)"
      then obtain c1 c2 c3 t' where t: "t = c1 # c2 # c3 # t'"
        and a: "acceptLo (of_char c0) \<le> of_char c1" "of_char c1 \<le> acceptHi (of_char c0)"
        and c: "isCont (of_char c2)" "isCont (of_char c3)"
        and d: "snd (DecodeRuneInString (c0 # t)) = 4"
        by auto
      have "x \<in> set (take (4 - 1) t)" using assms by (simp only: d)
      then have "x = c1 \<or> x = c2 \<or> x = c3" unfolding t by auto
      then show ?thesis using accept_cont [OF a] c by auto
    qed
  qed
qed

lemma decode_ascii:
  "of_char c0 < (0x80::nat) \<Longrightarrow> DecodeRuneInString (c0 # t) = (of_char c0, 1)"
  by (rule decode_one) (simp add: seqLen_def)

lemma fieldsLoop_cur: "cur \<noteq> [] \<Longrightarrow> fieldsLoop cur s \<noteq> []"
proof (induction cur s rule: fieldsLoop.induct)
  case (1 cur)
  then show ?case by simp
next
  case (2 cur c s)
  show ?case
  proof (cases "IsSpace (fst (DecodeRuneInString (c # s)))")
    case True
    then show ?thesis using "2.prems" by (simp add: Let_def del: DecodeRuneInString.simps)
  next
    case False
    then show ?thesis using "2.IH"(2) [OF refl False]
      by (simp add: Let_def del: DecodeRuneInString.simps)
  qed
qed

lemma fieldsLoop_ascii:
  "x \<in> set s \<Longrightarrow> of_char x < (0x80::nat) \<Longrightarrow> \<not> IsSpace (of_char x) \<Longrightarrow> fieldsLoop cur s \<noteq> []"
proof (induction cur s rule: fieldsLoop.induct)
  case (1 cur)
  then show ?case by simp
next
  case (2 cur c s)
  define w where "w = snd (DecodeRuneInString (c # s))"
  show ?case
  proof (cases "IsSpace (fst (DecodeRuneInString (c # s)))")
    case False
    have "fieldsLoop (cur @ c # take (w - 1) s) (drop (w - 1) s) \<noteq> []"
      by (rule fieldsLoop_cur) simp
    then show ?thesis using False
      by (simp add: Let_def w_def del: DecodeRuneInString.simps)
  next
    case True
    have "x \<noteq> c" using True decode_ascii [of c s] "2.prems"(2,3) by auto
    then have xs: "x \<in> set s" using "2.prems"(1) by simp
    have "x \<notin> set (take (w - 1) s)"
      using decode_skipped [of x c s] "2.prems"(2) by (auto simp: w_def isCont_def)
    then have "x \<in> set (drop (w - 1) s)"
      using xs set_append [of "take (w - 1) s" "drop (w - 1) s"] by simp
    then have "fieldsLoop [] (drop (w - 1) s) \<noteq> []"
      using "2.IH"(1) [OF w_def [symmetric, THEN sym] True] "2.prems"(2,3)
      by (simp add: w_def del: DecodeRuneInString.simps)
    then show ?thesis using True
      by (simp add: Let_def w_def del: DecodeRuneInString.simps)
  qed
qed

lemma sliceFrom_Index:
  "Index s sub \<noteq> -1 \<Longrightarrow>
   sliceFrom s (Index s sub + int (length sub)) = Inr (drop (nat (Index s sub) + length sub) s)"
  using Index_bounds [of s sub] by (simp add: sliceFrom_def nat_add_distrib)

lemma Fields_keyword:
  assumes "Index lower sub \<noteq> -1" and "CHR ''c'' \<in> set sub"
  shows "Fields lower \<noteq> []"
proof -
  have "CHR ''c'' \<in> set lower" using Index_set [OF assms(1)] assms(2) by blast
  moreover have "of_char (CHR ''c'') < (0x80::nat)" by simp
  moreover have "\<not> IsSpace (of_char (CHR ''c''))" by (simp add: IsSpace_def)
  ultimately show ?thesis unfolding Fields_def by (rule fieldsLoop_ascii)
qed

lemma index_last: "words \<noteq> [] \<Longrightarrow> index words (int (length words) - 1) = Inr (last words)"
  by (cases words rule: rev_cases) (simp_all add: index_def nat_diff_distrib)

lemma index_first: "xs \<noteq> [] \<Longrightarrow> index xs 0 = Inr (hd xs)"
  by (cases xs) (simp_all add: index_def)

lemma containsCheck_found:
  assumes i: "Index lower sw \<noteq> -1" and w: "words \<noteq> []"
  shows "(case sliceFrom lower (Index lower sw + int (length sw)) of
           Inl p \<Rightarrow> Inl p
         | Inr remainingStr \<Rightarrow>
             (let letterIndex = Index remainingStr ''letter '' in
              if letterIndex \<noteq> -1 then
                (case sliceFrom remainingStr (letterIndex + int (length ''letter '')) of
                   Inl p \<Rightarrow> Inl p
                 | Inr rest \<Rightarrow>
                     (let charAfter = TrimSpace rest in
                      if length charAfter > 0 then
                        (case index (runes charAfter) 0 of
                           Inl p \<Rightarrow> Inl p
                         | Inr r \<Rightarrow> Inr (filters(''contains_character'' \<mapsto> VString (EncodeRune r))))
                      else Inr filters))
              else
                (case index words (int (length words) - 1) of
                   Inl p \<Rightarrow> Inl p
                 | Inr lastWord \<Rightarrow>
                     if length (runes lastWord) = 1
                     then Inr (filters(''contains_character'' \<mapsto> VString lastWord))
                     else Inr filters)))
         = Inr (afterKeyword lower words sw filters)"
proof -
  define rem where "rem = drop (nat (Index lower sw) + length sw) lower"
  have s1: "sliceFrom lower (Index lower sw + int (length sw)) = Inr rem"
    unfolding rem_def by (rule sliceFrom_Index [OF i])
  show ?thesis
  proof (cases "Index rem ''letter '' = -1")
    case True
    then show ?thesis
      unfolding s1 afterKeyword_def rem_def [symmetric] Let_def
      by (simp add: index_last [OF w])
  next
    case False
    define rest where "rest = drop (nat (Index rem ''letter '') + 7) rem"
    have s2: "sliceFrom rem (Index rem ''letter '' + int (length ''letter '')) = Inr rest"
    proof -
      have l7: "length ''letter '' = 7" by simp
      show ?thesis unfolding rest_def using sliceFrom_Index [OF False] by (simp only: l7)
    qed
    show ?thesis
    proof (cases "TrimSpace rest = []")
      case True
      then show ?thesis
        using False
        unfolding s1 afterKeyword_def rem_def [symmetric] Let_def sum.case s2
          rest_def [symmetric]
        by simp
    next
      case ne: False
      then have "runes (TrimSpace rest) \<noteq> []" by simp
      then have ix: "index (runes (TrimSpace rest)) 0 = Inr (hd (runes (TrimSpace rest)))"
        by (rule index_first)
      show ?thesis
        using False ne
        unfolding s1 afterKeyword_def rem_def [symmetric] Let_def sum.case s2
          rest_def [symmetric] ix
        by simp
    qed
  qed
qed

lemma containsCheck_eq:
  assumes "words = Fields lower"
  shows "containsCheck lower words filters =
           Inr (if Index lower ''containing'' \<noteq> -1 then afterKeyword lower words ''containing'' filters
                else if Index lower ''contains'' \<noteq> -1 then afterKeyword lower words ''contains'' filters
                else filters)"
proof (cases "Index lower ''containing'' \<noteq> -1")
  case True
  have w: "words \<noteq> []" unfolding assms by (rule Fields_keyword [OF True]) simp
  show ?thesis
    using True containsCheck_found [OF True w, of filters]
    unfolding containsCheck_def Let_def by (simp only: if_True if_False simp_thms)
next
  case nf: False
  show ?thesis
  proof (cases "Index lower ''contains'' \<noteq> -1")
    case True
    have w: "words \<noteq> []" unfolding assms by (rule Fields_keyword [OF True]) simp
    show ?thesis
      using nf True containsCheck_found [OF True w, of filters]
      unfolding containsCheck_def Let_def by (simp only: if_True if_False simp_thms)
  next
    case False
    then show ?thesis using nf unfolding containsCheck_def Let_def by simp
  qed
qed

lemma wordCountLoop_step:
  "i < length words \<Longrightarrow> \<not> wcMatch words i \<Longrightarrow>
   wordCountLoop words i filters = wordCountLoop words (i + 1) filters"
  by (subst wordCountLoop.simps)
     (auto simp: wcMatch_def index_def nat_diff_distrib split: option.splits)

lemma wordCountLoop_hit:
  "wcMatch words i \<Longrightarrow>
   wordCountLoop words i filters
   = Inr (filters(''word_count'' \<mapsto> VInt (wcValue (words ! (i - 1)))))"
  by (subst wordCountLoop.simps)
     (auto simp: wcMatch_def wcValue_def index_def nat_diff_distrib split: option.splits)

lemma wordCountLoop_end:
  "\<not> i < length words \<Longrightarrow> wordCountLoop words i filters = Inr filters"
  by (subst wordCountLoop.simps) simp

lemma wordCountLoop_filter:
  "wordCountLoop words i filters =
     Inr (case filter (wcMatch words) [i..<length words] of
            [] \<Rightarrow> filters
          | k # ks \<Rightarrow> filters(''word_count'' \<mapsto> VInt (wcValue (words ! (k - 1)))))"
proof (induction "length words - i" arbitrary: i)
  case 0
  then have "\<not> i < length words" by simp
  then show ?case using wordCountLoop_end [of i words filters] by simp
next
  case (Suc n)
  then have lt: "i < length words" by simp
  have u: "[i..<length words] = i # [i + 1..<length words]"
    using lt by (simp add: upt_conv_Cons)
  show ?case
  proof (cases "wcMatch words i")
    case True
    then show ?thesis using wordCountLoop_hit [OF True, of filters] u by simp
  next
    case False
    have "n = length words - (i + 1)" using Suc.hyps(2) by simp
    then have "wordCountLoop words (i + 1) filters =
      Inr (case filter (wcMatch words) [i + 1..<length words] of
            [] \<Rightarrow> filters
          | k # ks \<Rightarrow> filters(''word_count'' \<mapsto> VInt (wcValue (words ! (k - 1)))))"
      by (rule Suc.hyps(1))
    then show ?thesis using wordCountLoop_step [OF lt False, of filters] False u by simp
  qed
qed

lemma wordCountLoop_eq:
  "wordCountLoop words 0 filters =
     Inr (case wcMatches words of
            [] \<Rightarrow> filters
          | k # ks \<Rightarrow> filters(''word_count'' \<mapsto> VInt (wcValue (words ! (k - 1)))))"
  unfolding wcMatches_def by (rule wordCountLoop_filter)

lemma lengthLoop_step:
  "i < length words \<Longrightarrow> \<not> lenMatch words i \<Longrightarrow>
   lengthLoop words i filters = lengthLoop words (i + 1) filters"
  by (subst lengthLoop.simps)
     (auto simp: lenMatch_def index_def nat_diff_distrib nat_add_distrib split: option.splits)

lemma lengthLoop_hit:
  "lenMatch words i \<Longrightarrow>
   lengthLoop words i filters = lengthLoop words (i + 1) (lenStep words i filters)"
  by (subst lengthLoop.simps)
     (auto simp: lenMatch_def lenStep_def index_def nat_diff_distrib nat_add_distrib
           split: option.splits)

lemma lengthLoop_end:
  "\<not> i < length words \<Longrightarrow> lengthLoop words i filters = Inr filters"
  by (subst lengthLoop.simps) simp

lemma lengthLoop_filter:
  "lengthLoop words i filters =
     Inr (fold (lenStep words) (filter (lenMatch words) [i..<length words]) filters)"
proof (induction "length words - i" arbitrary: i filters)
  case 0
  then have "\<not> i < length words" by simp
  then show ?case using lengthLoop_end [of i words filters] by simp
next
  case (Suc n)
  then have lt: "i < length words" by simp
  have u: "[i..<length words] = i # [i + 1..<length words]"
    using lt by (simp add: upt_conv_Cons)
  have n: "n = length words - (i + 1)" using Suc.hyps(2) by simp
  show ?case
  proof (cases "lenMatch words i")
    case True
    have "lengthLoop words (i + 1) (lenStep words i filters) =
      Inr (fold (lenStep words) (filter (lenMatch words) [i + 1..<length words])
             (lenStep words i filters))"
      using n by (rule Suc.hyps(1))
    then show ?thesis using lengthLoop_hit [OF True, of filters] True u by simp
  next
    case False
    have "lengthLoop words (i + 1) filters =
      Inr (fold (lenStep words) (filter (lenMatch words) [i + 1..<length words]) filters)"
      using n by (rule Suc.hyps(1))
    then show ?thesis using lengthLoop_step [OF lt False, of filters] False u by simp
  qed
qed

lemma lengthLoop_eq:
  "lengthLoop words 0 filters = Inr (fold (lenStep words) (lenMatches words) filters)"
  unfolding lenMatches_def by (rule lengthLoop_filter)

lemma parseNaturalLanguageQuery_eq:
  "parseNaturalLanguageQuery L query = Inr (parsedFilters L query, None)"
  unfolding parseNaturalLanguageQuery_def parsedFilters_def Let_def
  by (simp only: wordCountLoop_eq lengthLoop_eq containsCheck_eq [OF refl] sum.case)



lemma well_typed_palindromeCheck: "well_typed f \<Longrightarrow> well_typed (palindromeCheck lower f)"
  unfolding palindromeCheck_def by (simp add: well_typed_upd type_ok_def)

lemma well_typed_lenStep: "well_typed f \<Longrightarrow> well_typed (lenStep words i f)"
  unfolding lenStep_def by (auto intro!: well_typed_upd simp: type_ok_def split: option.splits)

lemma well_typed_fold_lenStep: "well_typed f \<Longrightarrow> well_typed (fold (lenStep words) is f)"
  by (induction "is" arbitrary: f) (simp_all add: well_typed_lenStep)

lemma well_typed_afterKeyword: "well_typed f \<Longrightarrow> well_typed (afterKeyword lower words sw f)"
  unfolding afterKeyword_def Let_def
  by (auto intro!: well_typed_upd simp: type_ok_def)

lemma well_typed_parsedFilters: "well_typed (parsedFilters L query)"
proof -
  define lower where "lower = ToLower L query"
  define words where "words = Fields lower"
  define f0 where "f0 = palindromeCheck lower Map.empty"
  define f1 where "f1 = (case wcMatches words of
                        [] \<Rightarrow> f0
                      | k # ks \<Rightarrow> f0(''word_count'' \<mapsto> VInt (wcValue (words ! (k - 1)))))"
  define f2 where "f2 = fold (lenStep words) (lenMatches words) f1"
  have 0: "well_typed f0" unfolding f0_def
    by (rule well_typed_palindromeCheck) (rule well_typed_empty)
  have 1: "well_typed f1" unfolding f1_def using 0
    by (auto intro!: well_typed_upd simp: type_ok_def split: list.splits)
  have 2: "well_typed f2" unfolding f2_def using 1 by (rule well_typed_fold_lenStep)
  have "parsedFilters L query =
     (if Index lower ''containing'' \<noteq> -1 then afterKeyword lower words ''containing'' f2
      else if Index lower ''contains'' \<noteq> -1 then afterKeyword lower words ''contains'' f2
      else f2)"
    unfolding parsedFilters_def Let_def f2_def f1_def f0_def words_def lower_def ..
  then show ?thesis using 2 well_typed_afterKeyword [OF 2] by simp
qed





section \<open>The type assertions of \<open>matchesFilters\<close>\<close>

lemma listIsPalindrome_typed:
  "well_typed f \<Longrightarrow> listIsPalindrome get f = Inr f' \<Longrightarrow> well_typed f'"
  unfolding listIsPalindrome_def Let_def
  by (auto intro!: well_typed_upd simp: type_ok_def split: if_splits option.splits)

lemma listInt_typed:
  "well_typed f \<Longrightarrow> name \<in> {''min_length'', ''max_length'', ''word_count''} \<Longrightarrow>
   listInt name get f = Inr f' \<Longrightarrow> well_typed f'"
  unfolding listInt_def Let_def
  by (auto intro!: well_typed_upd simp: type_ok_def split: if_splits option.splits)

lemma listContainsCharacter_typed:
  "well_typed f \<Longrightarrow> listContainsCharacter get f = Inr f' \<Longrightarrow> well_typed f'"
  unfolding listContainsCharacter_def Let_def
  by (auto intro!: well_typed_upd simp: type_ok_def split: if_splits option.splits)

lemma ListStrings_filters_typed:
  assumes "ListStrings_filters get = Inr f"
  shows "well_typed f"
proof -
  obtain f1 where 1: "listIsPalindrome get Map.empty = Inr f1"
    using assms unfolding ListStrings_filters_def by (auto split: sum.splits)
  obtain f2 where 2: "listInt ''min_length'' get f1 = Inr f2"
    using assms 1 unfolding ListStrings_filters_def by (auto split: sum.splits)
  obtain f3 where 3: "listInt ''max_length'' get f2 = Inr f3"
    using assms 1 2 unfolding ListStrings_filters_def by (auto split: sum.splits)
  obtain f4 where 4: "listInt ''word_count'' get f3 = Inr f4"
    using assms 1 2 3 unfolding ListStrings_filters_def by (auto split: sum.splits)
  have 5: "listContainsCharacter get f4 = Inr f"
    using assms 1 2 3 4 unfolding ListStrings_filters_def by simp
  have "well_typed f1" using well_typed_empty 1 by (rule listIsPalindrome_typed)
  then have "well_typed f2" using listInt_typed [of f1 "''min_length''" get f2] 2 by simp
  then have "well_typed f3" using listInt_typed [of f2 "''max_length''" get f3] 3 by simp
  then have "well_typed f4" using listInt_typed [of f3 "''word_count''" get f4] 4 by simp
  then show ?thesis using 5 by (rule listContainsCharacter_typed)
qed

lemma matchesFilters_wrong_type:
  "\<not> type_ok key val \<Longrightarrow> matchesFilters res ((key, val) # rest) = Inl Panic"
  by (cases val) (auto simp: type_ok_def split: if_splits)

lemma matchesFilters_total:
  assumes "well_typed f" and "range_order f kvs"
  shows "\<exists>b. matchesFilters res kvs = Inr b"
proof -
  have d: "distinct (map fst kvs)" and m: "map_of kvs = f"
    using assms(2) by (simp_all add: range_order_def)
  have "type_ok k v" if "(k, v) \<in> set kvs" for k v
    using that map_of_eq_Some_iff [OF d, of k v] m assms(1) by (simp add: well_typed_def)
  then have "matchesFilters res kvs = Inr (\<forall>(k, v)\<in>set kvs. holds (Properties res) k v)"
    by (rule matchesFilters_all)
  then show ?thesis by blast
qed

text \<open>Claim C10.  A value whose dynamic type is not the one asserted for its key makes
  \<open>matchesFilters\<close> panic as soon as the entry is visited.  On a filter set whose
  values carry the asserted types \<open>matchesFilters\<close> returns a boolean, whatever the
  order of the visit; every filter set that \<open>ListStrings\<close> builds from the query
  parameters is such a set, and so is the one that \<open>parseNaturalLanguageQuery\<close>
  returns, which it does for every query.\<close>

theorem C10_type_assertions:
  "(\<not> type_ok key val \<longrightarrow> matchesFilters res ((key, val) # rest) = Inl Panic)
   \<and> (well_typed f \<and> range_order f kvs \<longrightarrow> (\<exists>b. matchesFilters res kvs = Inr b))
   \<and> (ListStrings_filters get = Inr g \<longrightarrow> well_typed g)
   \<and> (\<exists>h. parseNaturalLanguageQuery L query = Inr (h, None) \<and> well_typed h)"
proof (intro conjI impI)
  assume "\<not> type_ok key val"
  then show "matchesFilters res ((key, val) # rest) = Inl Panic"
    by (rule matchesFilters_wrong_type)
next
  assume "well_typed f \<and> range_order f kvs"
  then show "\<exists>b. matchesFilters res kvs = Inr b" using matchesFilters_total by blast
next
  assume "ListStrings_filters get = Inr g"
  then show "well_typed g" by (rule ListStrings_filters_typed)
next
  show "\<exists>h. parseNaturalLanguageQuery L query = Inr (h, None) \<and> well_typed h"
    using parseNaturalLanguageQuery_eq [of L query] well_typed_parsedFilters [of L query]
    by blast
qed

theorem C10_type_assertions_witness:
  "matchesFilters
     \<lparr> ID = [], Value = ''test'',
       Properties = \<lparr> Length = 4, IsPalindrome = False, UniqueCharacters = 3, WordCount = 1,
                      SHA256Hash = [],
                      CharacterFrequencyMap = [(''t'', 2), (''e'', 1), (''s'', 1)] \<rparr>,
       CreatedAt = 0 \<rparr>
     [(''is_palindrome'', VInt 1)] = Inl Panic
   \<and> (\<exists>b. matchesFilters
          \<lparr> ID = [], Value = ''test'',
            Properties = \<lparr> Length = 4, IsPalindrome = False, UniqueCharacters = 3, WordCount = 1,
                           SHA256Hash = [],
                           CharacterFrequencyMap = [(''t'', 2), (''e'', 1), (''s'', 1)] \<rparr>,
            CreatedAt = 0 \<rparr>
          [(''word_count'', VInt 2)] = Inr b)
   \<and> ListStrings_filters (\<lambda>k. if k = ''word_count'' then ''2'' else [])
       = Inr [''word_count'' \<mapsto> VInt 2]
   \<and> type_ok ''word_count'' (VInt 2)
   \<and> (\<exists>h. parseNaturalLanguageQuery latin1 ''strings with 2 words'' = Inr (h, None))"
proof -
  define res where "res =
     \<lparr> ID = [], Value = ''test'',
       Properties = \<lparr> Length = 4, IsPalindrome = False, UniqueCharacters = 3, WordCount = 1,
                      SHA256Hash = [],
                      CharacterFrequencyMap = [(''t'', 2), (''e'', 1), (''s'', 1)] \<rparr>,
       CreatedAt = 0 \<rparr>"
  define g :: filterMap where "g = [''word_count'' \<mapsto> VInt 2]"
  define get :: "string \<Rightarrow> string" where "get = (\<lambda>k. if k = ''word_count'' then ''2'' else [])"
  have a: "Atoi ''2'' = Some 2" by code_simp
  have 1: "\<not> type_ok ''is_palindrome'' (VInt 1)" by (simp add: type_ok_def)
  have 2: "well_typed g" unfolding g_def by (simp add: well_typed_def type_ok_def)
  have 3: "range_order g [(''word_count'', VInt 2)]" unfolding g_def by (simp add: range_order_def)
  have 4: "ListStrings_filters get = Inr g"
    unfolding ListStrings_filters_def listIsPalindrome_def listInt_def listContainsCharacter_def
      Let_def get_def g_def
    by (simp add: a)
  note t = C10_type_assertions [of "''is_palindrome''" "VInt 1" res "[]" g
      "[(''word_count'', VInt 2)]" get g latin1 "''strings with 2 words''"]
  have "well_typed g" using t 4 by blast
  then have 5: "type_ok ''word_count'' (VInt 2)" unfolding well_typed_def g_def by simp
  show ?thesis
    using t 1 2 3 4 5 unfolding res_def g_def get_def by blast
qed

end
